theory Spec2Isabelle
  imports Complex_Main "HOL-Library.Multiset"
begin

section \<open>Characters and strings\<close>

text \<open>
  A board cell, a promotion letter and every character of a FEN string is a Python
  string of one character. The model uses \<^typ>\<open>char\<close> for the code points below 256.
  \<open>isdigit\<close> and \<open>isupper\<close> follow Python on all of them; \<open>upper\<close> and \<open>lower\<close> follow
  Python on ASCII and leave the other code points alone (Python never maps one of those
  to an ASCII letter, and the engine only compares the result with ASCII letters).
\<close>

datatype error = ValueError | IndexError | KeyError

definition isdigit :: "char \<Rightarrow> bool" where
  "isdigit c \<longleftrightarrow> c \<in> set ''0123456789'' \<or> (of_char c :: nat) \<in> {178, 179, 185}"

text \<open>\<open>int(ch)\<close> for a character with \<open>ch.isdigit()\<close>: the superscript digits raise.\<close>

definition int_of_digit :: "char \<Rightarrow> error + nat" where
  "int_of_digit c =
     (if c \<in> set ''0123456789'' then Inr (of_char c - 48) else Inl ValueError)"

definition isupper :: "char \<Rightarrow> bool" where
  "isupper c \<longleftrightarrow> (let n = (of_char c :: nat) in
      (65 \<le> n \<and> n \<le> 90) \<or> (192 \<le> n \<and> n \<le> 214) \<or> (216 \<le> n \<and> n \<le> 222))"

definition upper :: "char \<Rightarrow> char" where
  "upper c =
     (case map_of (zip ''abcdefghijklmnopqrstuvwxyz'' ''ABCDEFGHIJKLMNOPQRSTUVWXYZ'') c of
        Some u \<Rightarrow> u
      | None \<Rightarrow> c)"

definition lower :: "char \<Rightarrow> char" where
  "lower c =
     (case map_of (zip ''ABCDEFGHIJKLMNOPQRSTUVWXYZ'' ''abcdefghijklmnopqrstuvwxyz'') c of
        Some l \<Rightarrow> l
      | None \<Rightarrow> c)"

text \<open>\<open>str(n)\<close> for a Python integer.\<close>

fun str_nat :: "nat \<Rightarrow> string" where
  "str_nat n = (if n < 10 then [''0123456789'' ! n]
                else str_nat (n div 10) @ [''0123456789'' ! (n mod 10)])"

declare str_nat.simps [simp del]

definition str_int :: "int \<Rightarrow> string" where
  "str_int i = (if i < 0 then CHR ''-'' # str_nat (nat (- i)) else str_nat (nat i))"

text \<open>\<open>s.split(sep)\<close> and \<open>sep.join(rows)\<close> for a separator of one character.\<close>

fun split_sep :: "char \<Rightarrow> string \<Rightarrow> string list" where
  "split_sep sep [] = [[]]"
| "split_sep sep (c # cs) =
     (if c = sep then [] # split_sep sep cs
      else (let rs = split_sep sep cs in (c # hd rs) # tl rs))"

fun join :: "string \<Rightarrow> string list \<Rightarrow> string" where
  "join sep [] = []"
| "join sep [x] = x"
| "join sep (x # y # ys) = x @ sep @ join sep (y # ys)"

section \<open>Board (board.py)\<close>

record Board =
  squares :: "char list"

definition START_FEN :: string where
  "START_FEN = ''rnbqkbnr/pppppppp/8/8/8/8/PPPPPPPP/RNBQKBNR''"

text \<open>The body of the inner loop of \<open>Board.from_fen\<close>: the cells one character stands for.\<close>

definition fen_cells :: "char \<Rightarrow> error + char list" where
  "fen_cells ch =
     (if isdigit ch then
        (case int_of_digit ch of Inl e \<Rightarrow> Inl e | Inr n \<Rightarrow> Inr (replicate n CHR ''.''))
      else Inr [ch])"

text \<open>The two nested loops of \<open>Board.from_fen\<close> visit the characters of the rows in order.\<close>

fun fen_squares :: "string \<Rightarrow> error + char list" where
  "fen_squares [] = Inr []"
| "fen_squares (ch # cs) =
     (case fen_cells ch of
        Inl e \<Rightarrow> Inl e
      | Inr xs \<Rightarrow> (case fen_squares cs of Inl e \<Rightarrow> Inl e | Inr ys \<Rightarrow> Inr (xs @ ys)))"

definition from_fen :: "string \<Rightarrow> error + Board" where
  "from_fen board_fen =
     (let rows = split_sep CHR ''/'' board_fen in
      if length rows \<noteq> 8 then Inl ValueError
      else (case fen_squares (concat rows) of
              Inl e \<Rightarrow> Inl e
            | Inr sq \<Rightarrow> if length sq \<noteq> 64 then Inl ValueError else Inr \<lparr>squares = sq\<rparr>))"

definition starting_board :: "error + Board" where
  "starting_board = from_fen START_FEN"

text \<open>
  The inner loop of \<open>Board.to_fen\<close> over one row, with its two variables \<open>empty\<close> and
  \<open>fen_row\<close>, and the flush after the loop.
\<close>

fun fen_row_loop :: "char list \<Rightarrow> nat \<Rightarrow> string \<Rightarrow> string" where
  "fen_row_loop [] n_empty fen_row =
     (if n_empty \<noteq> 0 then fen_row @ str_nat n_empty else fen_row)"
| "fen_row_loop (piece # ps) n_empty fen_row =
     (if piece = CHR ''.'' then fen_row_loop ps (n_empty + 1) fen_row
      else fen_row_loop ps 0
             ((if n_empty \<noteq> 0 then fen_row @ str_nat n_empty else fen_row) @ [piece]))"

text \<open>The slice \<open>xs[i:j]\<close> for \<open>0 \<le> i \<le> j\<close>.\<close>

definition slice :: "'a list \<Rightarrow> nat \<Rightarrow> nat \<Rightarrow> 'a list" where
  "slice xs i j = drop i (take j xs)"

definition to_fen :: "Board \<Rightarrow> string" where
  "to_fen b =
     join ''/'' (map (\<lambda>r. fen_row_loop (slice (squares b) (r * 8) ((r + 1) * 8)) 0 []) [0..<8])"

definition locate_king :: "Board \<Rightarrow> string \<Rightarrow> error + int" where
  "locate_king b color =
     (let target = (if color = ''w'' then CHR ''K'' else CHR ''k'') in
      case find (\<lambda>idx. squares b ! idx = target) [0..<length (squares b)] of
        Some idx \<Rightarrow> Inr (int idx)
      | None \<Rightarrow> Inl ValueError)"


section \<open>Coordinates and pieces (utils.py)\<close>

definition FILES :: string where
  "FILES = ''abcdefgh''"

definition RANKS :: string where
  "RANKS = ''12345678''"

text \<open>\<open>divmod\<close> rounds towards minus infinity, as \<open>div\<close> and \<open>mod\<close> on \<^typ>\<open>int\<close> do.\<close>

definition index_to_square :: "int \<Rightarrow> string" where
  "index_to_square index =
     (let row = index div 8; col = index mod 8 in FILES ! nat col # str_int (8 - row))"

definition square_to_index :: "string \<Rightarrow> error + int" where
  "square_to_index square =
     (if length square \<noteq> 2 \<or> square ! 0 \<notin> set FILES \<or> square ! 1 \<notin> set RANKS
      then Inl ValueError
      else (let file = int (length (takeWhile (\<lambda>c. c \<noteq> square ! 0) FILES)) in
            case int_of_digit (square ! 1) of
              Inl e \<Rightarrow> Inl e
            | Inr rank \<Rightarrow> (let row = 8 - int rank in Inr (row * 8 + file))))"

text \<open>
  The engine calls \<open>square_to_index\<close> on literals only; \<open>sq\<close> is the value of such
  a call.
\<close>

definition sq :: "string \<Rightarrow> int" where
  "sq name = (case square_to_index name of Inr i \<Rightarrow> i | Inl e \<Rightarrow> - 1)"

definition piece_color :: "char \<Rightarrow> string option" where
  "piece_color piece =
     (if piece = CHR ''.'' then None else Some (if isupper piece then ''w'' else ''b''))"

definition PIECE_VALUES :: "char \<rightharpoonup> int" where
  "PIECE_VALUES = map_of
     [(CHR ''P'', 100), (CHR ''N'', 320), (CHR ''B'', 330),
      (CHR ''R'', 500), (CHR ''Q'', 900), (CHR ''K'', 0)]"

text \<open>
  \<open>xs[i]\<close> for a Python integer \<open>i\<close>: a negative index counts from the end, an index
  out of range raises \<open>IndexError\<close>.
\<close>

definition py_index :: "'a list \<Rightarrow> int \<Rightarrow> error + nat" where
  "py_index xs i =
     (let n = int (length xs); j = (if i < 0 then i + n else i)
      in if 0 \<le> j \<and> j < n then Inr (nat j) else Inl IndexError)"

definition getitem :: "'a list \<Rightarrow> int \<Rightarrow> error + 'a" where
  "getitem xs i = (case py_index xs i of Inl e \<Rightarrow> Inl e | Inr j \<Rightarrow> Inr (xs ! j))"

definition setitem :: "'a list \<Rightarrow> int \<Rightarrow> 'a \<Rightarrow> error + 'a list" where
  "setitem xs i v = (case py_index xs i of Inl e \<Rightarrow> Inl e | Inr j \<Rightarrow> Inr (xs[j := v]))"

section \<open>Game state (game\_state.py)\<close>

record Move =
  from_square :: int
  to_square :: int
  promotion :: "char option"
  is_castle :: bool
  is_en_passant :: bool
  captured :: "char option"

text \<open>\<open>Move(f, t)\<close> with every keyword argument at its default.\<close>

definition mk_move :: "int \<Rightarrow> int \<Rightarrow> Move" where
  "mk_move f t = \<lparr>from_square = f, to_square = t, promotion = None, is_castle = False,
                  is_en_passant = False, captured = None\<rparr>"

text \<open>One entry of the \<open>history\<close> stack, the dictionary that \<open>make_move\<close> appends.\<close>

record Undo =
  h_move :: Move
  h_captured :: "char option"
  h_moved_piece :: char
  h_prev_castling :: string
  h_prev_en_passant :: "int option"
  h_prev_halfmove :: int
  h_prev_fullmove :: int
  h_prev_side :: string
  h_rook_move :: "(int \<times> int \<times> char) option"
  h_ep_capture_square :: "int option"
  h_rep_key :: string

record GameState =
  board :: Board
  side_to_move :: string
  castling_rights :: string
  en_passant :: "int option"
  halfmove_clock :: int
  fullmove_number :: int
  history :: "Undo list"
  repetition :: "string \<rightharpoonup> int"

definition repetition_key :: "GameState \<Rightarrow> string" where
  "repetition_key state =
     (let castling = (if castling_rights state \<noteq> [] then castling_rights state else ''-'');
          ep = (case en_passant state of None \<Rightarrow> ''-'' | Some i \<Rightarrow> index_to_square i)
      in to_fen (board state) @ '' '' @ side_to_move state @ '' '' @ castling @ '' '' @ ep)"

text \<open>\<open>update_repetition\<close> returns the key and the state with the count incremented.\<close>

definition rep_inc :: "(string \<rightharpoonup> int) \<Rightarrow> string \<Rightarrow> (string \<rightharpoonup> int)" where
  "rep_inc rep key = rep(key \<mapsto> (case rep key of None \<Rightarrow> 0 | Some c \<Rightarrow> c) + 1)"

definition update_repetition :: "GameState \<Rightarrow> string \<times> GameState" where
  "update_repetition state =
     (let key = repetition_key state
      in (key, state\<lparr>repetition := rep_inc (repetition state) key\<rparr>))"

text \<open>The constructor \<open>GameState.__init__\<close>.\<close>

definition new_state :: "Board \<Rightarrow> string \<Rightarrow> string \<Rightarrow> int option \<Rightarrow> int \<Rightarrow> int \<Rightarrow> GameState" where
  "new_state b side castling ep halfmove fullmove =
     snd (update_repetition
       \<lparr>board = b, side_to_move = side,
        castling_rights = (if castling \<noteq> ''-'' then castling else []),
        en_passant = ep, halfmove_clock = halfmove, fullmove_number = fullmove,
        history = [], repetition = Map.empty\<rparr>)"

definition is_draw_by_repetition :: "GameState \<Rightarrow> bool" where
  "is_draw_by_repetition state \<longleftrightarrow>
     (case repetition state (repetition_key state) of None \<Rightarrow> 0 | Some c \<Rightarrow> c) \<ge> 3"

definition on_board :: "int \<Rightarrow> int \<Rightarrow> bool" where
  "on_board r c \<longleftrightarrow> 0 \<le> r \<and> r < 8 \<and> 0 \<le> c \<and> c < 8"

text \<open>
  The engine reads \<open>board[r * 8 + c]\<close> only under \<open>on_board(r, c)\<close>, at an index from 0
  to 63. The attack test and the move generator are modelled on boards of at least 64
  cells, as \<open>Board.from_fen\<close> builds them, where such a read never raises.
\<close>

definition cell :: "char list \<Rightarrow> int \<Rightarrow> int \<Rightarrow> char" where
  "cell b r c = b ! nat (r * 8 + c)"

definition knight_steps :: "(int \<times> int) list" where
  "knight_steps = [(-2, -1), (-2, 1), (-1, -2), (-1, 2), (1, -2), (1, 2), (2, -1), (2, 1)]"

definition diag_dirs :: "(int \<times> int) list" where
  "diag_dirs = [(-1, -1), (-1, 1), (1, -1), (1, 1)]"

definition ortho_dirs :: "(int \<times> int) list" where
  "ortho_dirs = [(-1, 0), (1, 0), (0, -1), (0, 1)]"

text \<open>
  One \<open>while on_board(nr, nc)\<close> loop of \<open>is_square_attacked\<close>: the first piece on the
  ray decides. The directions are the non-zero constants above; the test on \<open>(dr, dc)\<close>
  only makes the recursion total.
\<close>

function attack_ray :: "char list \<Rightarrow> (char \<Rightarrow> bool) \<Rightarrow> int \<Rightarrow> int \<Rightarrow> int \<Rightarrow> int \<Rightarrow> bool" where
  "attack_ray b hit nr nc dr dc =
     (if on_board nr nc \<and> (dr \<noteq> 0 \<or> dc \<noteq> 0) then
        (let piece = cell b nr nc in
         if piece \<noteq> CHR ''.'' then hit piece
         else attack_ray b hit (nr + dr) (nc + dc) dr dc)
      else False)"
  by pat_completeness auto
termination
  by (relation "measure (\<lambda>(b, hit, nr, nc, dr, dc).
        if dr > 0 then nat (8 - nr) else if dr < 0 then nat (nr + 1)
        else if dc > 0 then nat (8 - nc) else nat (nc + 1))")
     (auto simp: on_board_def)

declare attack_ray.simps [simp del]

definition is_square_attacked :: "GameState \<Rightarrow> int \<Rightarrow> string \<Rightarrow> bool" where
  "is_square_attacked state square by_color =
     (let row = square div 8; col = square mod 8; b = squares (board state);
          pawn_dir = (if by_color = ''w'' then 1 else - 1)
      in
        (\<exists>dc \<in> set [- 1, 1]. on_board (row + pawn_dir) (col + dc) \<and>
           (let piece = cell b (row + pawn_dir) (col + dc) in
            (by_color = ''w'' \<and> piece = CHR ''P'') \<or> (by_color = ''b'' \<and> piece = CHR ''p'')))
      \<or> (\<exists>(dr, dc) \<in> set knight_steps. on_board (row + dr) (col + dc) \<and>
           (let piece = cell b (row + dr) (col + dc) in
            (by_color = ''w'' \<and> piece = CHR ''N'') \<or> (by_color = ''b'' \<and> piece = CHR ''n'')))
      \<or> (\<exists>(dr, dc) \<in> set diag_dirs.
           attack_ray b (\<lambda>piece. (by_color = ''w'' \<and> piece \<in> set ''BQ'') \<or>
                                  (by_color = ''b'' \<and> piece \<in> set ''bq''))
             (row + dr) (col + dc) dr dc)
      \<or> (\<exists>(dr, dc) \<in> set ortho_dirs.
           attack_ray b (\<lambda>piece. (by_color = ''w'' \<and> piece \<in> set ''RQ'') \<or>
                                  (by_color = ''b'' \<and> piece \<in> set ''rq''))
             (row + dr) (col + dc) dr dc)
      \<or> (\<exists>(dr, dc) \<in> set (diag_dirs @ ortho_dirs). on_board (row + dr) (col + dc) \<and>
           (let piece = cell b (row + dr) (col + dc) in
            (by_color = ''w'' \<and> piece = CHR ''K'') \<or> (by_color = ''b'' \<and> piece = CHR ''k''))))"

definition is_in_check :: "GameState \<Rightarrow> string \<Rightarrow> error + bool" where
  "is_in_check state color =
     (case locate_king (board state) color of
        Inl e \<Rightarrow> Inl e
      | Inr king_sq \<Rightarrow>
          (let enemy = (if color = ''w'' then ''b'' else ''w'')
           in Inr (is_square_attacked state king_sq enemy)))"

definition insufficient_material :: "GameState \<Rightarrow> bool" where
  "insufficient_material state =
     (let pieces = filter (\<lambda>p. p \<noteq> CHR ''.'') (squares (board state)) in
      if \<forall>p \<in> set pieces. upper p = CHR ''K'' then True
      else if length pieces = 3 then
        (let minor_pieces = filter (\<lambda>p. upper p \<in> {CHR ''B'', CHR ''N''}) pieces in
         if length minor_pieces = 1 then True else False)
      else False)"


text \<open>\<open>remove_castle\<close>, the inner function of \<open>make_move\<close>: \<open>replace(right, "")\<close>.\<close>

definition remove_castle :: "char \<Rightarrow> string \<Rightarrow> string" where
  "remove_castle right rights = filter (\<lambda>c. c \<noteq> right) rights"

text \<open>The castling-rights block of \<open>make_move\<close>, one \<open>if\<close> after the other.\<close>

definition update_castling :: "char \<Rightarrow> char option \<Rightarrow> Move \<Rightarrow> string \<Rightarrow> string" where
  "update_castling moved_piece captured_piece move rights =
     (let r1 = (if moved_piece = CHR ''K'' then remove_castle CHR ''Q'' (remove_castle CHR ''K'' rights)
                else if moved_piece = CHR ''k'' then remove_castle CHR ''q'' (remove_castle CHR ''k'' rights)
                else rights);
          r2 = (if moved_piece = CHR ''R'' then
                  (if from_square move = sq ''a1'' then remove_castle CHR ''Q'' r1
                   else if from_square move = sq ''h1'' then remove_castle CHR ''K'' r1
                   else r1)
                else r1);
          r3 = (if moved_piece = CHR ''r'' then
                  (if from_square move = sq ''a8'' then remove_castle CHR ''q'' r2
                   else if from_square move = sq ''h8'' then remove_castle CHR ''k'' r2
                   else r2)
                else r2);
          r4 = (if captured_piece = Some CHR ''R'' \<and> to_square move = sq ''a1''
                then remove_castle CHR ''Q'' r3 else r3);
          r5 = (if captured_piece = Some CHR ''R'' \<and> to_square move = sq ''h1''
                then remove_castle CHR ''K'' r4 else r4);
          r6 = (if captured_piece = Some CHR ''r'' \<and> to_square move = sq ''a8''
                then remove_castle CHR ''q'' r5 else r5);
          r7 = (if captured_piece = Some CHR ''r'' \<and> to_square move = sq ''h8''
                then remove_castle CHR ''k'' r6 else r6)
      in r7)"

text \<open>The rook squares of a castling move, \<open>None\<close> for any other destination.\<close>

definition castle_rook_squares :: "int \<Rightarrow> (int \<times> int) option" where
  "castle_rook_squares dest =
     (if dest = sq ''g1'' then Some (sq ''h1'', sq ''f1'')
      else if dest = sq ''c1'' then Some (sq ''a1'', sq ''d1'')
      else if dest = sq ''g8'' then Some (sq ''h8'', sq ''f8'')
      else if dest = sq ''c8'' then Some (sq ''a8'', sq ''d8'')
      else None)"

text \<open>
  \<open>make_move\<close> changes the state in place; the model returns the new state, or the
  exception: \<open>ValueError\<close> for an empty source square, \<open>IndexError\<close> for a square outside
  the board. \<open>make_board\<close> is its first half, the edits of the board: it returns the moved
  piece, the captured piece, the en-passant capture square, the rook move and the board.
\<close>

definition make_board ::
  "char list \<Rightarrow> string \<Rightarrow> Move \<Rightarrow>
   error + (char \<times> char option \<times> int option \<times> (int \<times> int \<times> char) option \<times> char list)" where
  "make_board b0 side move =
     (case getitem b0 (from_square move) of Inl e \<Rightarrow> Inl e | Inr moved_piece \<Rightarrow>
      if moved_piece = CHR ''.'' then Inl ValueError else
      case getitem b0 (to_square move) of Inl e \<Rightarrow> Inl e | Inr target_piece \<Rightarrow>
      case (if is_en_passant move then
              (let ep_sq = (if side = ''w'' then to_square move + 8 else to_square move - 8) in
               case getitem b0 ep_sq of Inl e \<Rightarrow> Inl e | Inr cp \<Rightarrow>
               case setitem b0 ep_sq CHR ''.'' of Inl e \<Rightarrow> Inl e | Inr b1 \<Rightarrow>
               Inr (Some cp, Some ep_sq, b1))
            else Inr (if target_piece \<noteq> CHR ''.'' then Some target_piece else None, None, b0))
      of Inl e \<Rightarrow> Inl e | Inr (captured_piece, ep_capture_square, b1) \<Rightarrow>
      case setitem b1 (from_square move) CHR ''.'' of Inl e \<Rightarrow> Inl e | Inr b2 \<Rightarrow>
      let placed_piece =
            (case promotion move of
               None \<Rightarrow> moved_piece
             | Some promo \<Rightarrow> if side = ''w'' then upper promo else lower promo) in
      case setitem b2 (to_square move) placed_piece of Inl e \<Rightarrow> Inl e | Inr b3 \<Rightarrow>
      case (if is_castle move then
              (case castle_rook_squares (to_square move) of
                 None \<Rightarrow> Inr (None, b3)
               | Some (rook_from, rook_to) \<Rightarrow>
                   case getitem b3 rook_from of Inl e \<Rightarrow> Inl e | Inr rook_piece \<Rightarrow>
                   case setitem b3 rook_from CHR ''.'' of Inl e \<Rightarrow> Inl e | Inr b4 \<Rightarrow>
                   case setitem b4 rook_to rook_piece of Inl e \<Rightarrow> Inl e | Inr b5 \<Rightarrow>
                   Inr (Some (rook_from, rook_to, rook_piece), b5))
            else Inr (None, b3))
      of Inl e \<Rightarrow> Inl e | Inr (rook_move, b6) \<Rightarrow>
      Inr (moved_piece, captured_piece, ep_capture_square, rook_move, b6))"

definition make_move :: "GameState \<Rightarrow> Move \<Rightarrow> error + GameState" where
  "make_move state move =
     (let side = side_to_move state in
      case make_board (squares (board state)) side move of Inl e \<Rightarrow> Inl e
      | Inr (moved_piece, captured_piece, ep_capture_square, rook_move, b6) \<Rightarrow>
      let s1 = state
            \<lparr>board := (board state)\<lparr>squares := b6\<rparr>,
             side_to_move := (if side = ''w'' then ''b'' else ''w''),
             castling_rights := update_castling moved_piece captured_piece move (castling_rights state),
             en_passant :=
               (if upper moved_piece = CHR ''P'' \<and> \<bar>to_square move - from_square move\<bar> = 16
                then Some ((to_square move + from_square move) div 2) else None),
             halfmove_clock :=
               (if upper moved_piece = CHR ''P'' \<or> captured_piece \<noteq> None then 0
                else halfmove_clock state + 1),
             fullmove_number :=
               (if side = ''b'' then fullmove_number state + 1 else fullmove_number state)\<rparr>;
          (rep_key, s2) = update_repetition s1
      in Inr (s2\<lparr>history := history s2 @
            [\<lparr>h_move = move, h_captured = captured_piece, h_moved_piece = moved_piece,
              h_prev_castling = castling_rights state, h_prev_en_passant = en_passant state,
              h_prev_halfmove = halfmove_clock state, h_prev_fullmove = fullmove_number state,
              h_prev_side = side, h_rook_move = rook_move,
              h_ep_capture_square = ep_capture_square, h_rep_key = rep_key\<rparr>]\<rparr>))"

text \<open>
  The board edits of \<open>undo_move\<close>, in its order. An entry with an en-passant square
  always holds a captured cell, since \<open>make_move\<close> writes the two together; for the other
  values of the type the model writes an empty cell.
\<close>

definition undo_board :: "char list \<Rightarrow> Undo \<Rightarrow> error + char list" where
  "undo_board b0 last_entry =
     (let move = h_move last_entry in
      case setitem b0 (from_square move) (h_moved_piece last_entry) of Inl e \<Rightarrow> Inl e | Inr b1 \<Rightarrow>
      case setitem b1 (to_square move)
             (case h_captured last_entry of None \<Rightarrow> CHR ''.'' | Some c \<Rightarrow> c)
      of Inl e \<Rightarrow> Inl e | Inr b2 \<Rightarrow>
      case (case (if is_en_passant move then h_ep_capture_square last_entry else None) of
              None \<Rightarrow> Inr b2
            | Some ep_sq \<Rightarrow>
                (case setitem b2 (to_square move) CHR ''.'' of Inl e \<Rightarrow> Inl e | Inr b3 \<Rightarrow>
                 setitem b3 ep_sq
                   (case h_captured last_entry of None \<Rightarrow> CHR ''.'' | Some c \<Rightarrow> c)))
      of Inl e \<Rightarrow> Inl e | Inr b4 \<Rightarrow>
      case (if promotion move \<noteq> None then setitem b4 (from_square move) (h_moved_piece last_entry)
            else Inr b4)
      of Inl e \<Rightarrow> Inl e | Inr b5 \<Rightarrow>
      (if is_castle move then
         (case h_rook_move last_entry of
            None \<Rightarrow> Inr b5
          | Some (rook_from, rook_to, rook_piece) \<Rightarrow>
              case setitem b5 rook_from rook_piece of Inl e \<Rightarrow> Inl e | Inr b6 \<Rightarrow>
              setitem b6 rook_to CHR ''.'')
       else Inr b5))"

text \<open>The repetition count that \<open>undo_move\<close> takes back.\<close>

definition rep_dec :: "(string \<rightharpoonup> int) \<Rightarrow> string \<Rightarrow> (string \<rightharpoonup> int)" where
  "rep_dec rep rep_key =
     (let n = (case rep rep_key of None \<Rightarrow> 1 | Some c \<Rightarrow> c) - 1
      in if n \<le> 0 then rep(rep_key := None) else rep(rep_key \<mapsto> n))"

text \<open>
  \<open>undo_move\<close> pops the last entry, takes the repetition count back, restores the
  fields and undoes the board edits.
\<close>

definition undo_move :: "GameState \<Rightarrow> error + GameState" where
  "undo_move state =
     (if history state = [] then Inr state else
      let last_entry = last (history state) in
      case undo_board (squares (board state)) last_entry of Inl e \<Rightarrow> Inl e | Inr b7 \<Rightarrow>
      Inr (state
        \<lparr>board := (board state)\<lparr>squares := b7\<rparr>,
         side_to_move := h_prev_side last_entry,
         castling_rights := h_prev_castling last_entry,
         en_passant := h_prev_en_passant last_entry,
         halfmove_clock := h_prev_halfmove last_entry,
         fullmove_number := h_prev_fullmove last_entry,
         history := butlast (history state),
         repetition := rep_dec (repetition state) (h_rep_key last_entry)\<rparr>))"

section \<open>Move generation (move\_generation.py)\<close>

text \<open>The four promotion moves \<open>Move(idx, dest, promotion=promo, captured=cap)\<close>.\<close>

definition promo_moves :: "int \<Rightarrow> int \<Rightarrow> char option \<Rightarrow> Move list" where
  "promo_moves idx dest cap =
     map (\<lambda>promo. (mk_move idx dest)\<lparr>promotion := Some promo, captured := cap\<rparr>) ''QRBN''"

text \<open>The single and the double push of a pawn.\<close>

definition pawn_pushes :: "GameState \<Rightarrow> int \<Rightarrow> Move list" where
  "pawn_pushes state idx =
     (let b = squares (board state); side = side_to_move state;
          row = idx div 8; col = idx mod 8;
          dir = (if side = ''w'' then - 1 else 1);
          start_row = (if side = ''w'' then 6 else 1);
          promo_row = (if side = ''w'' then 0 else 7);
          fwd_r = row + dir
      in
        if on_board fwd_r col then
          (let dest = fwd_r * 8 + col in
           if b ! nat dest = CHR ''.'' then
             (if fwd_r = promo_row then promo_moves idx dest None else [mk_move idx dest])
             @ (if row = start_row then
                  (let dest2 = (row + 2 * dir) * 8 + col in
                   if b ! nat dest2 = CHR ''.'' then [mk_move idx dest2] else [])
                else [])
           else [])
        else [])"

text \<open>The body of the loop \<open>for dc in (-1, 1)\<close>: a capture and the en-passant capture.\<close>

definition pawn_captures :: "GameState \<Rightarrow> int \<Rightarrow> int \<Rightarrow> Move list" where
  "pawn_captures state idx dc =
     (let b = squares (board state); side = side_to_move state;
          row = idx div 8; col = idx mod 8;
          enemy = (if side = ''w'' then ''b'' else ''w'');
          dir = (if side = ''w'' then - 1 else 1);
          promo_row = (if side = ''w'' then 0 else 7);
          cr = row + dir; cc = col + dc
      in
        if \<not> on_board cr cc then []
        else
          (let target = cr * 8 + cc; target_piece = b ! nat target in
           (if target_piece \<noteq> CHR ''.'' \<and> piece_color target_piece = Some enemy then
              (if cr = promo_row then promo_moves idx target (Some target_piece)
               else [(mk_move idx target)\<lparr>captured := Some target_piece\<rparr>])
            else [])
           @ (if en_passant state = Some target
              then [(mk_move idx target)\<lparr>is_en_passant := True\<rparr>] else [])))"

definition pawn_moves :: "GameState \<Rightarrow> int \<Rightarrow> Move list" where
  "pawn_moves state idx = pawn_pushes state idx @ concat (map (pawn_captures state idx) [- 1, 1])"

text \<open>The knight and king loops over a table of steps.\<close>

definition step_moves :: "char list \<Rightarrow> string \<Rightarrow> int \<Rightarrow> (int \<times> int) list \<Rightarrow> Move list" where
  "step_moves b enemy idx steps =
     (let row = idx div 8; col = idx mod 8 in
      concat (map (\<lambda>(dr, dc).
          let nr = row + dr; nc = col + dc in
          if on_board nr nc then
            (let dest = nr * 8 + nc; target_piece = b ! nat dest in
             if target_piece = CHR ''.'' \<or> piece_color target_piece = Some enemy then
               [(mk_move idx dest)
                  \<lparr>captured := (if target_piece \<noteq> CHR ''.'' then Some target_piece else None)\<rparr>]
             else [])
          else [])
        steps))"

text \<open>
  One \<open>while on_board(nr, nc)\<close> loop of a sliding piece. As in \<open>attack_ray\<close>, the test
  on \<open>(dr, dc)\<close> only makes the recursion total.
\<close>

function ray_moves :: "char list \<Rightarrow> string \<Rightarrow> int \<Rightarrow> int \<Rightarrow> int \<Rightarrow> int \<Rightarrow> int \<Rightarrow> Move list" where
  "ray_moves b enemy idx nr nc dr dc =
     (if on_board nr nc \<and> (dr \<noteq> 0 \<or> dc \<noteq> 0) then
        (let dest = nr * 8 + nc; target_piece = b ! nat dest in
         if target_piece = CHR ''.'' then
           mk_move idx dest # ray_moves b enemy idx (nr + dr) (nc + dc) dr dc
         else if piece_color target_piece = Some enemy then
           [(mk_move idx dest)\<lparr>captured := Some target_piece\<rparr>]
         else [])
      else [])"
  by pat_completeness auto
termination
  by (relation "measure (\<lambda>(b, enemy, idx, nr, nc, dr, dc).
        if dr > 0 then nat (8 - nr) else if dr < 0 then nat (nr + 1)
        else if dc > 0 then nat (8 - nc) else nat (nc + 1))")
     (auto simp: on_board_def)

declare ray_moves.simps [simp del]

definition slider_moves :: "char list \<Rightarrow> string \<Rightarrow> int \<Rightarrow> char \<Rightarrow> Move list" where
  "slider_moves b enemy idx up =
     (let row = idx div 8; col = idx mod 8;
          directions = (if up \<in> set ''BQ'' then diag_dirs else [])
                     @ (if up \<in> set ''RQ'' then ortho_dirs else [])
      in concat (map (\<lambda>(dr, dc). ray_moves b enemy idx (row + dr) (col + dc) dr dc) directions))"

definition king_dirs :: "(int \<times> int) list" where
  "king_dirs = [(-1, -1), (-1, 0), (-1, 1), (0, -1), (0, 1), (1, -1), (1, 0), (1, 1)]"

text \<open>One castling test: the right, the empty squares, the three unattacked squares.\<close>

definition castle_moves ::
  "GameState \<Rightarrow> string \<Rightarrow> int \<Rightarrow> char \<Rightarrow> int list \<Rightarrow> int list \<Rightarrow> int \<Rightarrow> Move list" where
  "castle_moves state enemy idx right empties safe dest =
     (if right \<in> set (castling_rights state) then
        (if \<forall>e \<in> set empties. squares (board state) ! nat e = CHR ''.'' then
           (if \<not> is_square_attacked state idx enemy
               \<and> (\<forall>q \<in> set safe. \<not> is_square_attacked state q enemy)
            then [(mk_move idx dest)\<lparr>is_castle := True\<rparr>] else [])
         else [])
      else [])"

definition castling_moves :: "GameState \<Rightarrow> int \<Rightarrow> Move list" where
  "castling_moves state idx =
     (let side = side_to_move state; row = idx div 8; col = idx mod 8;
          enemy = (if side = ''w'' then ''b'' else ''w'') in
      if side = ''w'' \<and> row = 7 \<and> col = 4 then
        castle_moves state enemy idx CHR ''K'' [sq ''f1'', sq ''g1''] [sq ''f1'', sq ''g1''] (sq ''g1'')
        @ castle_moves state enemy idx CHR ''Q'' [sq ''b1'', sq ''c1'', sq ''d1'']
            [sq ''d1'', sq ''c1''] (sq ''c1'')
      else if side = ''b'' \<and> row = 0 \<and> col = 4 then
        castle_moves state enemy idx CHR ''k'' [sq ''f8'', sq ''g8''] [sq ''f8'', sq ''g8''] (sq ''g8'')
        @ castle_moves state enemy idx CHR ''q'' [sq ''b8'', sq ''c8'', sq ''d8'']
            [sq ''d8'', sq ''c8''] (sq ''c8'')
      else [])"

text \<open>The body of the loop over \<open>enumerate(board)\<close>.\<close>

definition piece_moves :: "GameState \<Rightarrow> int \<Rightarrow> Move list" where
  "piece_moves state idx =
     (let b = squares (board state); side = side_to_move state; piece = b ! nat idx in
      if piece = CHR ''.'' \<or> piece_color piece \<noteq> Some side then []
      else
        (let up = upper piece; enemy = (if side = ''w'' then ''b'' else ''w'') in
         if up = CHR ''P'' then pawn_moves state idx
         else if up = CHR ''N'' then step_moves b enemy idx knight_steps
         else if up \<in> set ''BRQ'' then slider_moves b enemy idx up
         else if up = CHR ''K'' then step_moves b enemy idx king_dirs @ castling_moves state idx
         else []))"

definition generate_pseudo_legal_moves :: "GameState \<Rightarrow> Move list" where
  "generate_pseudo_legal_moves state =
     concat (map (\<lambda>idx. piece_moves state (int idx)) [0..<length (squares (board state))])"

text \<open>
  The loop of \<open>generate_legal_moves\<close>. Every iteration applies the move to the one
  shared state and takes it back, so the state is threaded through the loop; an exception
  of \<open>make_move\<close>, \<open>is_in_check\<close> or \<open>undo_move\<close> ends it.
\<close>

fun legal_loop :: "GameState \<Rightarrow> string \<Rightarrow> Move list \<Rightarrow> Move list \<Rightarrow> error + (Move list \<times> GameState)" where
  "legal_loop state color [] legal = Inr (legal, state)"
| "legal_loop state color (move # pseudo_moves) legal =
     (case make_move state move of Inl e \<Rightarrow> Inl e | Inr s1 \<Rightarrow>
      case is_in_check s1 color of Inl e \<Rightarrow> Inl e | Inr in_check \<Rightarrow>
      case undo_move s1 of Inl e \<Rightarrow> Inl e | Inr s2 \<Rightarrow>
      legal_loop s2 color pseudo_moves (if \<not> in_check then legal @ [move] else legal))"

definition generate_legal_moves :: "GameState \<Rightarrow> error + (Move list \<times> GameState)" where
  "generate_legal_moves state =
     legal_loop state (side_to_move state) (generate_pseudo_legal_moves state) []"

text \<open>\<open>GameState.from_fen\<close> on the six fields, already split and the numbers parsed.\<close>

definition state_from_fen ::
  "string \<Rightarrow> string \<Rightarrow> string \<Rightarrow> string \<Rightarrow> int \<Rightarrow> int \<Rightarrow> error + GameState" where
  "state_from_fen board_fen side castling ep halfmove fullmove =
     (case from_fen board_fen of Inl e \<Rightarrow> Inl e | Inr b \<Rightarrow>
      case (if ep = ''-'' then Inr None
            else (case square_to_index ep of Inl e \<Rightarrow> Inl e | Inr i \<Rightarrow> Inr (Some i)))
      of Inl e \<Rightarrow> Inl e | Inr ep_sq \<Rightarrow>
      Inr (new_state b side (if castling = ''-'' then [] else castling) ep_sq halfmove fullmove))"

section \<open>Evaluation (evaluation.py)\<close>

text \<open>
  Scores are Python floats. The search only negates, compares and takes the maximum of
  the evaluator's values, which is exact in floating point, so a finite score is
  modelled as a real number; \<open>-math.inf\<close> and \<open>math.inf\<close> are the two other scores.
\<close>

datatype score = NegInf | Fin real | PosInf

fun neg :: "score \<Rightarrow> score" where
  "neg NegInf = PosInf"
| "neg (Fin x) = Fin (- x)"
| "neg PosInf = NegInf"

text \<open>\<open>a >= b\<close>, \<open>a > b\<close> and \<open>max(a, b)\<close> on scores.\<close>

fun score_ge :: "score \<Rightarrow> score \<Rightarrow> bool" where
  "score_ge a NegInf = True"
| "score_ge PosInf b = True"
| "score_ge (Fin x) (Fin y) = (x \<ge> y)"
| "score_ge NegInf b = False"
| "score_ge a PosInf = False"

definition score_gt :: "score \<Rightarrow> score \<Rightarrow> bool" where
  "score_gt a b \<longleftrightarrow> \<not> score_ge b a"

definition score_max :: "score \<Rightarrow> score \<Rightarrow> score" where
  "score_max a b = (if score_gt b a then b else a)"

text \<open>The loop of \<open>simple_material_eval\<close>; \<open>PIECE_VALUES[...]\<close> raises on an unknown letter.\<close>

fun material_loop :: "char list \<Rightarrow> int \<Rightarrow> error + int" where
  "material_loop [] score = Inr score"
| "material_loop (piece # ps) score =
     (if piece = CHR ''.'' then material_loop ps score
      else (case PIECE_VALUES (upper piece) of
              None \<Rightarrow> Inl KeyError
            | Some v \<Rightarrow>
                material_loop ps (score + (if piece_color piece = Some ''w'' then v else - v))))"

definition simple_material_eval :: "GameState \<Rightarrow> error + real" where
  "simple_material_eval state =
     (case material_loop (squares (board state)) 0 of
        Inl e \<Rightarrow> Inl e
      | Inr score \<Rightarrow>
          (let max_score = 4000; oriented = real_of_int score / max_score
           in Inr (if side_to_move state = ''w'' then oriented else - oriented)))"

text \<open>
  \<open>evaluate_position\<close>: without a model the material formula; a model is any function
  from the state to a finite value.
\<close>

definition evaluate_position :: "GameState \<Rightarrow> (GameState \<Rightarrow> real) option \<Rightarrow> error + real" where
  "evaluate_position state model =
     (case model of None \<Rightarrow> simple_material_eval state | Some f \<Rightarrow> Inr (f state))"

section \<open>Search (search.py)\<close>

definition MATE_VALUE :: real where
  "MATE_VALUE = 10000"

definition move_score :: "Move \<Rightarrow> int" where
  "move_score move =
     (case captured move of
        None \<Rightarrow> 0
      | Some c \<Rightarrow> (case PIECE_VALUES (upper c) of None \<Rightarrow> 0 | Some v \<Rightarrow> v))"

text \<open>\<open>sorted(moves, key=move_score, reverse=True)\<close> is stable, as \<open>sort_key\<close> is.\<close>

definition order_moves :: "Move list \<Rightarrow> Move list" where
  "order_moves moves = sort_key (\<lambda>m. - move_score m) moves"

text \<open>
  The search functions recurse on the one shared state. Each returns its value with the
  state it leaves behind, or the exception that ended it. The recursion of \<open>alpha_beta\<close>
  only stops at \<open>depth == 0\<close> or at a terminal position, so the model counts the nested
  calls down from a bound: \<open>None\<close> means that the bound was reached.
\<close>

type_synonym 'a outcome = "(error + 'a \<times> GameState) option"

fun q_loop ::
  "(GameState \<Rightarrow> score \<Rightarrow> score \<Rightarrow> int \<Rightarrow> score outcome) \<Rightarrow>
   GameState \<Rightarrow> score \<Rightarrow> score \<Rightarrow> int \<Rightarrow> Move list \<Rightarrow> score outcome" where
  "q_loop rec state alpha beta depth [] = Some (Inr (alpha, state))"
| "q_loop rec state alpha beta depth (move # moves) =
     (if captured move = None \<and> \<not> is_en_passant move then q_loop rec state alpha beta depth moves
      else
        case make_move state move of Inl e \<Rightarrow> Some (Inl e) | Inr s1 \<Rightarrow>
        case rec s1 (neg beta) (neg alpha) (depth - 1) of
          None \<Rightarrow> None
        | Some (Inl e) \<Rightarrow> Some (Inl e)
        | Some (Inr (v, s2)) \<Rightarrow>
            case undo_move s2 of Inl e \<Rightarrow> Some (Inl e) | Inr s3 \<Rightarrow>
            (let score = neg v in
             if score_ge score beta then Some (Inr (beta, s3))
             else q_loop rec s3 (score_max alpha score) beta depth moves))"

primrec quiescence_search ::
  "nat \<Rightarrow> (GameState \<Rightarrow> real) option \<Rightarrow> GameState \<Rightarrow> score \<Rightarrow> score \<Rightarrow> int \<Rightarrow> score outcome" where
  "quiescence_search 0 model = (\<lambda>state alpha beta depth. None)"
| "quiescence_search (Suc n) model = (\<lambda>state alpha beta depth.
     case evaluate_position state model of Inl e \<Rightarrow> Some (Inl e) | Inr sp \<Rightarrow>
     (let stand_pat = Fin sp in
      if score_ge stand_pat beta then Some (Inr (beta, state))
      else
        (let alpha1 = score_max alpha stand_pat in
         if depth \<le> 0 then Some (Inr (stand_pat, state))
         else
           case generate_legal_moves state of Inl e \<Rightarrow> Some (Inl e) | Inr (ms, s1) \<Rightarrow>
           q_loop (quiescence_search n model) s1 alpha1 beta depth (order_moves ms))))"

fun ab_loop ::
  "(GameState \<Rightarrow> int \<Rightarrow> score \<Rightarrow> score \<Rightarrow> score outcome) \<Rightarrow>
   GameState \<Rightarrow> int \<Rightarrow> score \<Rightarrow> score \<Rightarrow> score \<Rightarrow> Move list \<Rightarrow> score outcome" where
  "ab_loop rec state depth alpha beta val [] = Some (Inr (val, state))"
| "ab_loop rec state depth alpha beta val (move # moves) =
     (case make_move state move of Inl e \<Rightarrow> Some (Inl e) | Inr s1 \<Rightarrow>
      case rec s1 (depth - 1) (neg beta) (neg alpha) of
        None \<Rightarrow> None
      | Some (Inl e) \<Rightarrow> Some (Inl e)
      | Some (Inr (v, s2)) \<Rightarrow>
          case undo_move s2 of Inl e \<Rightarrow> Some (Inl e) | Inr s3 \<Rightarrow>
          (let score = neg v; val1 = score_max val score; alpha1 = score_max alpha score in
           if score_ge alpha1 beta then Some (Inr (val1, s3))
           else ab_loop rec s3 depth alpha1 beta val1 moves))"

primrec alpha_beta ::
  "nat \<Rightarrow> (GameState \<Rightarrow> real) option \<Rightarrow> int \<Rightarrow> GameState \<Rightarrow> int \<Rightarrow> score \<Rightarrow> score \<Rightarrow> score outcome" where
  "alpha_beta 0 model quiescence_depth = (\<lambda>state depth alpha beta. None)"
| "alpha_beta (Suc n) model quiescence_depth = (\<lambda>state depth alpha beta.
     if halfmove_clock state \<ge> 100 \<or> insufficient_material state \<or> is_draw_by_repetition state
     then Some (Inr (Fin 0, state))
     else if depth = 0 then quiescence_search n model state alpha beta quiescence_depth
     else
       case generate_legal_moves state of Inl e \<Rightarrow> Some (Inl e) | Inr (ms, s1) \<Rightarrow>
       (let legal_moves = order_moves ms in
        if legal_moves = [] then
          (case is_in_check s1 (side_to_move s1) of
             Inl e \<Rightarrow> Some (Inl e)
           | Inr in_check \<Rightarrow>
               Some (Inr (if in_check then Fin (- MATE_VALUE + real_of_int (5 - depth)) else Fin 0, s1)))
        else ab_loop (alpha_beta n model quiescence_depth) s1 depth alpha beta NegInf legal_moves))"



section \<open>Predicates of the properties\<close>


text \<open>
  A board whose cells are pieces or empty: no cell is a digit or the row separator,
  the two characters that FEN reserves.
\<close>

definition cells_ok :: "Board \<Rightarrow> bool" where
  "cells_ok b \<longleftrightarrow> (\<forall>c \<in> set (squares b). \<not> isdigit c \<and> c \<noteq> CHR ''/'')"

text \<open>
  A board FEN whose rows are the rows of the board: eight rows separated by \<open>/\<close>; a
  row is made of piece characters and of the run lengths 1 to 8, no two run lengths next
  to each other (\<open>fen_row_ok\<close>), and stands for exactly eight cells.
\<close>

definition fen_piece_char :: "char \<Rightarrow> bool" where
  "fen_piece_char c \<longleftrightarrow> \<not> isdigit c \<and> c \<noteq> CHR ''/'' \<and> c \<noteq> CHR ''.''"

definition fen_run_char :: "char \<Rightarrow> bool" where
  "fen_run_char c \<longleftrightarrow> c \<in> set ''12345678''"

fun fen_row_ok :: "string \<Rightarrow> bool" where
  "fen_row_ok [] = True"
| "fen_row_ok [c] = (fen_run_char c \<or> fen_piece_char c)"
| "fen_row_ok (c # d # cs) =
     ((fen_piece_char c \<or> (fen_run_char c \<and> fen_piece_char d)) \<and> fen_row_ok (d # cs))"

fun fen_row_width :: "string \<Rightarrow> nat" where
  "fen_row_width [] = 0"
| "fen_row_width (c # cs) = (if fen_run_char c then of_char c - 48 else 1) + fen_row_width cs"

definition well_formed_board_fen :: "string \<Rightarrow> bool" where
  "well_formed_board_fen s \<longleftrightarrow>
     (let rows = split_sep CHR ''/'' s in
      length rows = 8 \<and> (\<forall>r \<in> set rows. fen_row_ok r \<and> fen_row_width r = 8))"

text \<open>The cells a well-formed row stands for.\<close>

definition row_cells :: "string \<Rightarrow> char list" where
  "row_cells r =
     concat (map (\<lambda>c. if fen_run_char c then replicate (of_char c - 48) CHR ''.'' else [c]) r)"

text \<open>The pieces on a board, and the invariant of one king of each colour.\<close>

definition pieces :: "char list \<Rightarrow> char list" where
  "pieces b = filter (\<lambda>p. p \<noteq> CHR ''.'') b"

definition one_king_per_color :: "char list \<Rightarrow> bool" where
  "one_king_per_color b \<longleftrightarrow> count_list b CHR ''K'' = 1 \<and> count_list b CHR ''k'' = 1"

section \<open>Example positions\<close>

definition start_board :: Board where
  "start_board = \<lparr>squares = ''rnbqkbnrpppppppp................................PPPPPPPPRNBQKBNR''\<rparr>"

text \<open>\<open>k7/8/8/8/8/8/8/KQQQQQ2 w - - 0 1\<close>: five white queens against the bare king.\<close>

definition queens_state :: GameState where
  "queens_state =
     new_state \<lparr>squares = ''k.......................................................KQQQQQ..''\<rparr>
       ''w'' [] None 0 1"

text \<open>\<open>k7/8/8/8/8/8/8/KN6 w - - 100 80\<close>: king and knight against king, the clock at 100.\<close>

definition knight_state :: GameState where
  "knight_state =
     new_state \<lparr>squares = ''k.......................................................KN......''\<rparr>
       ''w'' [] None 100 80"

section \<open>Predicates on positions and moves\<close>

text \<open>
  What every move emitted by \<open>generate_pseudo_legal_moves\<close> satisfies (lemma
  \<open>pseudo_legal_generated\<close>): both squares on the board, the mover's own piece on the
  source, the bookkeeping fields as the generator fills them.
\<close>

definition generated :: "GameState \<Rightarrow> Move \<Rightarrow> bool" where
  "generated s m \<longleftrightarrow>
     (let b = squares (board s); side = side_to_move s;
          f = from_square m; t = to_square m;
          dir = (if side = ''w'' then - 1 else 1);
          enemy = (if side = ''w'' then ''b'' else ''w'')
      in
        0 \<le> f \<and> f < 64 \<and> 0 \<le> t \<and> t < 64 \<and>
        piece_color (b ! nat f) = Some side \<and>
        (promotion m = None \<or> promotion m \<in> Some ` set ''QRBN'') \<and>
        (promotion m \<noteq> None \<longrightarrow> upper (b ! nat f) = CHR ''P'') \<and>
        (is_castle m \<longrightarrow>
           \<not> is_en_passant m \<and> promotion m = None \<and> upper (b ! nat f) = CHR ''K'' \<and>
           b ! nat t = CHR ''.'' \<and>
           ((f = 60 \<and> t = 62 \<and> b ! 61 = CHR ''.'') \<or> (f = 60 \<and> t = 58 \<and> b ! 59 = CHR ''.'') \<or>
            (f = 4 \<and> t = 6 \<and> b ! 5 = CHR ''.'') \<or> (f = 4 \<and> t = 2 \<and> b ! 3 = CHR ''.''))) \<and>
        (is_en_passant m \<longrightarrow>
           upper (b ! nat f) = CHR ''P'' \<and> en_passant s = Some t \<and> promotion m = None \<and>
           captured m = None \<and> 0 \<le> t - 8 * dir \<and> t - 8 * dir < 64) \<and>
        (\<not> is_en_passant m \<longrightarrow>
           (b ! nat t = CHR ''.'' \<or> piece_color (b ! nat t) = Some enemy) \<and>
           captured m = (if b ! nat t = CHR ''.'' then None else Some (b ! nat t))) \<and>
        (upper (b ! nat f) = CHR ''P'' \<longrightarrow>
           \<not> is_castle m \<and>
           (t - f = 8 * dir \<or> t - f = 8 * dir - 1 \<or> t - f = 8 * dir + 1 \<or>
            (t - f = 16 * dir \<and> f div 8 = (if side = ''w'' then 6 else 1) \<and>
             \<not> is_en_passant m \<and> promotion m = None \<and>
             b ! nat (f + 8 * dir) = CHR ''.'' \<and> b ! nat t = CHR ''.''))))"

text \<open>
  The two invariants of a state that the constructor and \<open>make_move\<close> keep: a board of
  64 cells, and no count below one in the repetition table.
\<close>

definition state_ok :: "GameState \<Rightarrow> bool" where
  "state_ok s \<longleftrightarrow>
     length (squares (board s)) = 64 \<and> (\<forall>k c. repetition s k = Some c \<longrightarrow> c \<ge> 1)"

text \<open>The en-passant target, when there is one on the board, is an empty square.\<close>

definition ep_target_empty :: "GameState \<Rightarrow> bool" where
  "ep_target_empty s \<longleftrightarrow>
     (\<forall>t. en_passant s = Some t \<and> 0 \<le> t \<and> t < 64 \<longrightarrow> squares (board s) ! nat t = CHR ''.'')"

text \<open>A pawn advancing two ranks from its start rank, and the square it passes over.\<close>

definition double_push :: "GameState \<Rightarrow> Move \<Rightarrow> bool" where
  "double_push s m \<longleftrightarrow>
     (let f = from_square m; t = to_square m; side = side_to_move s;
          dir = (if side = ''w'' then - 1 else 1);
          start_row = (if side = ''w'' then 6 else 1)
      in upper (squares (board s) ! nat f) = CHR ''P'' \<and> f div 8 = start_row \<and>
         t div 8 = f div 8 + 2 * dir \<and> t mod 8 = f mod 8)"

definition square_between :: "int \<Rightarrow> int \<Rightarrow> int" where
  "square_between f t = ((f div 8 + t div 8) div 2) * 8 + f mod 8"

text \<open>The conditions of one castling move: the side, the king on its home square, the
  right, the empty squares between king and rook, the unattacked squares of the king's path.\<close>

definition can_castle :: "GameState \<Rightarrow> string \<Rightarrow> int \<Rightarrow> char \<Rightarrow> char \<Rightarrow> int list \<Rightarrow> int list \<Rightarrow> bool" where
  "can_castle s side king_sq king right between path \<longleftrightarrow>
     side_to_move s = side \<and> squares (board s) ! nat king_sq = king \<and>
     right \<in> set (castling_rights s) \<and>
     (\<forall>e \<in> set between. squares (board s) ! nat e = CHR ''.'') \<and>
     (\<forall>q \<in> set path. \<not> is_square_attacked s q (if side = ''w'' then ''b'' else ''w''))"

definition castle_move :: "int \<Rightarrow> int \<Rightarrow> Move" where
  "castle_move f t = (mk_move f t)\<lparr>is_castle := True\<rparr>"

text \<open>\<open>(f(x := y)) z\<close> is evaluated without unfolding the update into an abstraction.\<close>

declare fun_upd_apply [code]

text \<open>The starting position.\<close>

definition start_state :: GameState where
  "start_state = new_state start_board ''w'' ''KQkq'' None 0 1"

text \<open>\<open>r3k2r/8/8/8/8/8/8/R3K2R w KQkq - 0 1\<close>.\<close>

definition castle_state :: GameState where
  "castle_state =
     new_state \<lparr>squares = ''r...k..r................................................R...K..R''\<rparr>
       ''w'' ''KQkq'' None 0 1"

text \<open>
  Three positions that \<open>GameState.from_fen\<close> accepts and whose en-passant target \<open>e6\<close> is
  an occupied square: \<open>4k3/8/4B3/3P4/8/8/8/4K3 w - e6 0 1\<close> with White's own bishop on it,
  \<open>4k3/8/4p3/3P4/8/8/8/K7 w - e6 0 1\<close> with a black pawn, and
  \<open>k7/8/4q3/3P4/8/8/8/4K3 w - e6 0 1\<close> with a black queen that gives check.
\<close>

definition ep_bishop_state :: GameState where
  "ep_bishop_state =
     new_state \<lparr>squares = ''....k...............B......P................................K...''\<rparr>
       ''w'' [] (Some 20) 0 1"

definition ep_pawn_state :: GameState where
  "ep_pawn_state =
     new_state \<lparr>squares = ''....k...............p......P............................K.......''\<rparr>
       ''w'' [] (Some 20) 0 1"

definition ep_queen_state :: GameState where
  "ep_queen_state =
     new_state \<lparr>squares = ''k...................q......P................................K...''\<rparr>
       ''w'' [] (Some 20) 0 1"

definition ep_capture :: Move where
  "ep_capture = (mk_move 27 20)\<lparr>is_en_passant := True\<rparr>"

text \<open>\<open>4k3/8/8/3Pp3/8/8/8/4K3 w - e6 0 1\<close>: the en-passant target \<open>e6\<close> is empty.\<close>

definition ep_ok_state :: GameState where
  "ep_ok_state =
     new_state \<lparr>squares = ''....k......................Pp...............................K...''\<rparr>
       ''w'' [] (Some 20) 0 1"

text \<open>\<open>4k3/8/8/8/8/4P3/8/4K3 w - - 0 1\<close>: a white pawn on e3, off its start rank.\<close>

definition pawn_e3_state :: GameState where
  "pawn_e3_state =
     new_state \<lparr>squares = ''....k.......................................P...............K...''\<rparr>
       ''w'' [] None 0 1"

text \<open>\<open>4k3/8/8/8/8/8/8/5K1R w K - 0 1\<close>: the right \<open>K\<close> with the king on f1.\<close>

definition king_f1_state :: GameState where
  "king_f1_state =
     new_state \<lparr>squares = ''....k........................................................K.R''\<rparr>
       ''w'' ''K'' None 0 1"




section \<open>FEN round trip\<close>

lemma join_split: "join [sep] (split_sep sep s) = s"
proof (induction s)
  case Nil show ?case by simp
next
  case (Cons c cs)
  obtain r rs where rs: "split_sep sep cs = r # rs"
    by (cases "split_sep sep cs") (cases cs; simp split: if_splits add: Let_def)+
  show ?case using Cons rs by (cases rs) (auto simp: Let_def)
qed

lemma split_sep_nonempty: "split_sep sep s \<noteq> []"
  by (cases s) (auto simp: Let_def)

lemma split_no_sep: "sep \<notin> set r \<Longrightarrow> split_sep sep (r @ sep # s) = r # split_sep sep s"
  by (induction r) (auto simp: Let_def)

lemma split_no_sep_last: "sep \<notin> set r \<Longrightarrow> split_sep sep r = [r]"
  by (induction r) (auto simp: Let_def)

lemma split_join: "rows \<noteq> [] \<Longrightarrow> \<forall>r \<in> set rows. sep \<notin> set r \<Longrightarrow> split_sep sep (join [sep] rows) = rows"
proof (induction "[sep]" rows rule: join.induct)
  case 1 then show ?case by simp
next
  case (2 x) then show ?case by (simp add: split_no_sep_last)
next
  case (3 x y ys)
  then show ?case by (simp add: split_no_sep)
qed

lemma str_nat_digit: "n < 10 \<Longrightarrow> str_nat n = [''0123456789'' ! n]"
  by (simp add: str_nat.simps)

lemma small_nat_cases: "n < 10 \<Longrightarrow> n \<in> {0,1,2,3,4,5,6,7,8,9::nat}"
  by auto

lemma fen_squares_str_nat:
  assumes "0 < n" "n < 10"
  shows "fen_squares (str_nat n) = Inr (replicate n CHR ''.'')"
proof -
  from assms have "n \<in> {1,2,3,4,5,6,7,8,9}" by auto
  then show ?thesis
    by (auto simp: str_nat_digit fen_cells_def isdigit_def int_of_digit_def numeral_eq_Suc)
qed

lemma str_nat_no_slash: "n < 10 \<Longrightarrow> CHR ''/'' \<notin> set (str_nat n)"
  using small_nat_cases [of n] by (auto simp: str_nat_digit)

lemma fen_squares_append:
  "fen_squares xs = Inr a \<Longrightarrow> fen_squares ys = Inr b \<Longrightarrow> fen_squares (xs @ ys) = Inr (a @ b)"
  by (induction xs arbitrary: a) (auto split: sum.splits)

lemma fen_squares_piece: "\<not> isdigit c \<Longrightarrow> fen_squares [c] = Inr [c]"
  by (simp add: fen_cells_def)

lemma fen_squares_row_loop:
  "fen_squares acc = Inr a \<Longrightarrow> n + length ps < 10 \<Longrightarrow> \<forall>c \<in> set ps. \<not> isdigit c \<Longrightarrow>
   fen_squares (fen_row_loop ps n acc) = Inr (a @ replicate n CHR ''.'' @ ps)"
proof (induction ps arbitrary: n acc a)
  case Nil
  show ?case
  proof (cases "n = 0")
    case True with Nil show ?thesis by simp
  next
    case False
    with Nil have "fen_squares (str_nat n) = Inr (replicate n CHR ''.'')"
      by (intro fen_squares_str_nat) auto
    from fen_squares_append [OF Nil(1) this] False show ?thesis by simp
  qed
next
  case (Cons p ps)
  show ?case
  proof (cases "p = CHR ''.''")
    case True
    have "replicate n CHR ''.'' @ CHR ''.'' # ps = replicate (Suc n) CHR ''.'' @ ps"
      by (simp add: replicate_app_Cons_same)
    with Cons True show ?thesis by simp
  next
    case False
    let ?acc = "(if n \<noteq> 0 then acc @ str_nat n else acc) @ [p]"
    have p: "fen_squares [p] = Inr [p]"
      by (rule fen_squares_piece) (use Cons.prems in simp)
    have "fen_squares ?acc = Inr (a @ replicate n CHR ''.'' @ [p])"
    proof (cases "n = 0")
      case True
      then show ?thesis using fen_squares_append [OF Cons.prems(1) p] by simp
    next
      case False
      with Cons.prems have "fen_squares (str_nat n) = Inr (replicate n CHR ''.'')"
        by (intro fen_squares_str_nat) auto
      from fen_squares_append [OF fen_squares_append [OF Cons.prems(1) this] p] False
      show ?thesis by simp
    qed
    from Cons.IH [OF this, of 0] Cons.prems False show ?thesis by simp
  qed
qed

lemma row_loop_no_slash:
  "CHR ''/'' \<notin> set acc \<Longrightarrow> CHR ''/'' \<notin> set ps \<Longrightarrow> n + length ps < 10 \<Longrightarrow>
   CHR ''/'' \<notin> set (fen_row_loop ps n acc)"
  by (induction ps arbitrary: n acc) (auto simp: str_nat_no_slash)

lemma fen_squares_concat:
  "\<forall>r \<in> set rs. fen_squares (f r) = Inr (g r) \<Longrightarrow>
   fen_squares (concat (map f rs)) = Inr (concat (map g rs))"
  by (induction rs) (auto simp: fen_squares_append)

lemma take_drop_concat:
  "\<forall>xs \<in> set xss. length xs = k \<Longrightarrow> r < length xss \<Longrightarrow>
   drop (r * k) (take (Suc r * k) (concat xss)) = xss ! r"
proof (induction xss arbitrary: r)
  case Nil then show ?case by simp
next
  case (Cons xs xss)
  show ?case
  proof (cases r)
    case 0 with Cons.prems show ?thesis by simp
  next
    case (Suc r')
    with Cons.prems have "drop (r' * k) (take (Suc r' * k) (concat xss)) = xss ! r'"
      by (intro Cons.IH) auto
    with Suc Cons.prems show ?thesis by simp
  qed
qed

lemma slices_concat:
  "\<forall>xs \<in> set xss. length xs = k \<Longrightarrow>
   map (\<lambda>r. slice (concat xss) (r * k) (Suc r * k)) [0..<length xss] = xss"
  by (rule nth_equalityI) (auto simp: slice_def take_drop_concat simp del: mult_Suc)

lemma concat_slices_take:
  "concat (map (\<lambda>r. slice xs (r * k) (Suc r * k)) [0..<n]) = take (n * k) xs"
proof (induction n)
  case 0 show ?case by simp
next
  case (Suc n)
  have "take (Suc n * k) xs = take (n * k) xs @ drop (n * k) (take (Suc n * k) xs)"
    by (metis append_take_drop_id le_add2 min.absorb1 mult_Suc take_take)
  with Suc show ?case by (simp add: slice_def del: mult_Suc)
qed

lemma concat_slices:
  "length xs = n * k \<Longrightarrow> concat (map (\<lambda>r. slice xs (r * k) (Suc r * k)) [0..<n]) = xs"
  by (simp add: concat_slices_take del: mult_Suc)

lemma slice_length: "length xs = n * k \<Longrightarrow> r < n \<Longrightarrow> length (slice xs (r * k) (Suc r * k)) = k"
proof -
  assume a: "length xs = n * k" "r < n"
  then have "Suc r \<le> n" by simp
  then have "Suc r * k \<le> n * k" by (rule mult_le_mono1)
  with a have "length (take (Suc r * k) xs) = Suc r * k" by (simp del: mult_Suc)
  then have "length (slice xs (r * k) (Suc r * k)) = Suc r * k - r * k"
    unfolding slice_def length_drop by simp
  then show ?thesis by simp
qed

lemma slice_set: "set (slice xs i j) \<subseteq> set xs"
  unfolding slice_def by (meson set_drop_subset set_take_subset subset_trans)

lemma from_fen_to_fen:
  assumes len: "length (squares b) = 64" and ok: "cells_ok b"
  shows "from_fen (to_fen b) = Inr b"
proof -
  let ?rows = "map (\<lambda>r. slice (squares b) (r * 8) (Suc r * 8)) [0..<8]"
  let ?enc = "\<lambda>row. fen_row_loop row 0 []"
  have rows_len: "\<forall>row \<in> set ?rows. length row = 8"
    using slice_length [of "squares b" 8 8] len by (auto simp del: mult_Suc)
  have rows_ok: "\<forall>row \<in> set ?rows. \<forall>c \<in> set row. \<not> isdigit c \<and> c \<noteq> CHR ''/''"
    using ok slice_set [of "squares b"] unfolding cells_ok_def by fastforce
  have fen: "to_fen b = join ''/'' (map ?enc ?rows)"
    by (simp add: to_fen_def comp_def del: mult_Suc)
  have "\<forall>r \<in> set (map ?enc ?rows). CHR ''/'' \<notin> set r"
  proof
    fix r assume "r \<in> set (map ?enc ?rows)"
    then obtain row where row: "row \<in> set ?rows" "r = ?enc row" by auto
    with rows_len rows_ok have "length row = 8" "CHR ''/'' \<notin> set row" by auto
    with row show "CHR ''/'' \<notin> set r" by (simp add: row_loop_no_slash)
  qed
  then have split: "split_sep CHR ''/'' (to_fen b) = map ?enc ?rows"
    unfolding fen by (intro split_join) auto
  have "\<forall>row \<in> set ?rows. fen_squares (?enc row) = Inr row"
  proof
    fix row assume row: "row \<in> set ?rows"
    with rows_len rows_ok have "0 + length row < 10" "\<forall>c \<in> set row. \<not> isdigit c" by auto
    from fen_squares_row_loop [OF _ this, of "[]" "[]"] show "fen_squares (?enc row) = Inr row"
      by simp
  qed
  then have "fen_squares (concat (map ?enc ?rows)) = Inr (concat (map (\<lambda>row. row) ?rows))"
    by (rule fen_squares_concat)
  also have "concat (map (\<lambda>row. row) ?rows) = squares b"
    using concat_slices [of "squares b" 8 8] len by (simp del: mult_Suc)
  finally have "fen_squares (concat (map ?enc ?rows)) = Inr (squares b)" .
  with split len show ?thesis by (simp add: from_fen_def)
qed


lemma row_cells_simps [simp]:
  "row_cells [] = []"
  "row_cells (c # cs) = (if fen_run_char c then replicate (of_char c - 48) CHR ''.'' else [c]) @ row_cells cs"
  by (simp_all add: row_cells_def)

lemma fen_run_char_facts:
  assumes "fen_run_char c"
  shows "0 < (of_char c - 48 :: nat)" "(of_char c - 48 :: nat) < 9"
    "str_nat (of_char c - 48) = [c]"
    "fen_cells c = Inr (replicate (of_char c - 48) CHR ''.'')"
    "\<not> fen_piece_char c"
  using assms
  by (auto simp: fen_run_char_def str_nat_digit fen_cells_def isdigit_def int_of_digit_def
      fen_piece_char_def)

lemma fen_piece_char_facts:
  assumes "fen_piece_char c"
  shows "\<not> fen_run_char c" "fen_cells c = Inr [c]" "c \<noteq> CHR ''.''"
  using assms
  by (auto simp: fen_run_char_def fen_cells_def isdigit_def fen_piece_char_def)

lemma fen_row_ok_Cons: "fen_row_ok (c # cs) \<Longrightarrow> fen_row_ok cs \<and> (fen_run_char c \<or> fen_piece_char c)"
  by (cases cs) auto

lemma fen_squares_row_cells: "fen_row_ok r \<Longrightarrow> fen_squares r = Inr (row_cells r)"
proof (induction r)
  case Nil show ?case by simp
next
  case (Cons c cs)
  from fen_row_ok_Cons [OF Cons.prems] Cons.IH
  show ?case by (auto simp: fen_run_char_facts fen_piece_char_facts)
qed

lemma length_row_cells: "length (row_cells r) = fen_row_width r"
  by (induction r) auto

lemma row_loop_replicate:
  "fen_row_loop (replicate k CHR ''.'' @ xs) n acc = fen_row_loop xs (n + k) acc"
  by (induction k arbitrary: n) auto

lemma row_loop_row_cells: "fen_row_ok r \<Longrightarrow> fen_row_loop (row_cells r) 0 acc = acc @ r"
proof (induction r arbitrary: acc rule: fen_row_ok.induct)
  case 1 show ?case by simp
next
  case (2 c)
  show ?case
  proof (cases "fen_run_char c")
    case True
    then show ?thesis
      using row_loop_replicate [of "of_char c - 48" "[]" 0 acc] fen_run_char_facts(1) [of c]
      by (simp add: fen_run_char_facts)
  next
    case False
    with 2 have "fen_piece_char c" by simp
    then show ?thesis by (simp add: fen_piece_char_facts)
  qed
next
  case (3 c d cs)
  from "3.prems" have ok: "fen_row_ok (d # cs)" by simp
  note IH = "3.IH" [OF ok]
  show ?case
  proof (cases "fen_piece_char c")
    case True
    then show ?thesis using IH [of "acc @ [c]"] by (simp add: fen_piece_char_facts)
  next
    case False
    with "3.prems" have c: "fen_run_char c" and d: "fen_piece_char d" by auto
    have "fen_row_loop (row_cells (c # d # cs)) 0 acc
        = fen_row_loop (d # row_cells cs) (of_char c - 48) acc"
      using row_loop_replicate [of "of_char c - 48" "d # row_cells cs" 0 acc] c d
      by (simp add: fen_piece_char_facts)
    also have "\<dots> = fen_row_loop (row_cells (d # cs)) 0 (acc @ [c])"
      using c d fen_run_char_facts(1) [of c] by (simp add: fen_piece_char_facts fen_run_char_facts)
    also have "\<dots> = acc @ c # d # cs" using IH [of "acc @ [c]"] by simp
    finally show ?thesis .
  qed
qed

lemma length_concat_uniform:
  "\<forall>xs \<in> set xss. length xs = k \<Longrightarrow> length (concat xss) = length xss * k"
  by (induction xss) auto

lemma to_fen_from_fen:
  assumes "well_formed_board_fen s"
  shows "\<exists>b. from_fen s = Inr b \<and> to_fen b = s"
proof -
  let ?rows = "split_sep CHR ''/'' s"
  let ?cells = "map row_cells ?rows"
  let ?b = "\<lparr>squares = concat ?cells\<rparr>"
  from assms have n: "length ?rows = 8"
    and ok: "\<forall>r \<in> set ?rows. fen_row_ok r" and w: "\<forall>r \<in> set ?rows. fen_row_width r = 8"
    by (auto simp: well_formed_board_fen_def Let_def)
  have "\<forall>r \<in> set ?rows. fen_squares ((\<lambda>r. r) r) = Inr (row_cells r)"
    using ok by (simp add: fen_squares_row_cells)
  then have "fen_squares (concat (map (\<lambda>r. r) ?rows)) = Inr (concat ?cells)"
    by (rule fen_squares_concat)
  then have sq: "fen_squares (concat ?rows) = Inr (concat ?cells)" by simp
  have len8: "\<forall>xs \<in> set ?cells. length xs = 8"
    using w by (auto simp: length_row_cells)
  from length_concat_uniform [OF this] n have "length (concat ?cells) = 64" by simp
  with sq n have ff: "from_fen s = Inr ?b" by (simp add: from_fen_def)
  have "map (\<lambda>r. slice (concat ?cells) (r * 8) (Suc r * 8)) [0..<length ?cells] = ?cells"
    using len8 by (rule slices_concat)
  then have sl: "map (\<lambda>r. slice (concat ?cells) (r * 8) (Suc r * 8)) [0..<8] = ?cells"
    using n by simp
  have "to_fen ?b = join ''/'' (map (\<lambda>cs. fen_row_loop cs 0 [])
      (map (\<lambda>r. slice (concat ?cells) (r * 8) (Suc r * 8)) [0..<8]))"
    by (simp add: to_fen_def comp_def del: mult_Suc)
  also have "\<dots> = join ''/'' (map (\<lambda>r. fen_row_loop (row_cells r) 0 []) ?rows)"
    unfolding sl by (simp add: comp_def)
  also have "map (\<lambda>r. fen_row_loop (row_cells r) 0 []) ?rows = map (\<lambda>r. r) ?rows"
    using ok by (intro map_cong) (auto simp: row_loop_row_cells)
  also have "join ''/'' (map (\<lambda>r. r) ?rows) = s" by (simp add: join_split)
  finally show ?thesis using ff by blast
qed

text \<open>
  C6, as amended: \<open>Board.to_fen\<close> is the inverse of \<open>Board.from_fen\<close> on the boards of
  64 cells, each a piece or empty, and on the board FEN strings of eight rows in which
  every row stands for exactly eight cells (piece characters and run lengths 1 to 8, no
  two run lengths next to each other); the FEN of the starting position is such a string.
  Eight rows and 64 cells in total are not enough: \<open>from_fen\<close> checks the total only,
  \<open>to_fen\<close> cuts the cells into rows of eight.
\<close>

theorem fen_round_trip:
  "(length (squares b) = 64 \<and> cells_ok b \<longrightarrow> from_fen (to_fen b) = Inr b) \<and>
   (well_formed_board_fen s \<longrightarrow> (\<exists>b'. from_fen s = Inr b' \<and> to_fen b' = s)) \<and>
   (\<exists>b0. from_fen START_FEN = Inr b0 \<and> to_fen b0 = START_FEN)"
proof (intro conjI impI)
  assume "length (squares b) = 64 \<and> cells_ok b"
  then show "from_fen (to_fen b) = Inr b" by (simp add: from_fen_to_fen)
next
  assume "well_formed_board_fen s"
  then show "\<exists>b'. from_fen s = Inr b' \<and> to_fen b' = s" by (rule to_fen_from_fen)
next
  have "well_formed_board_fen START_FEN"
    by (simp add: well_formed_board_fen_def START_FEN_def Let_def fen_run_char_def
        fen_piece_char_def isdigit_def)
  then show "\<exists>b0. from_fen START_FEN = Inr b0 \<and> to_fen b0 = START_FEN"
    by (rule to_fen_from_fen)
qed

theorem fen_round_trip_witness:
  "length (squares start_board) = 64 \<and> cells_ok start_board \<and>
   from_fen (to_fen start_board) = Inr start_board \<and>
   well_formed_board_fen ''r3k2r/8/8/8/8/8/8/R3K2R'' \<and>
   (\<exists>b'. from_fen ''r3k2r/8/8/8/8/8/8/R3K2R'' = Inr b' \<and> to_fen b' = ''r3k2r/8/8/8/8/8/8/R3K2R'')"
proof -
  have 1: "length (squares start_board) = 64 \<and> cells_ok start_board"
    by (simp add: start_board_def cells_ok_def isdigit_def)
  have 2: "well_formed_board_fen ''r3k2r/8/8/8/8/8/8/R3K2R''"
    by (simp add: well_formed_board_fen_def Let_def fen_run_char_def fen_piece_char_def isdigit_def)
  from 1 2 fen_round_trip [of start_board "''r3k2r/8/8/8/8/8/8/R3K2R''"] show ?thesis by blast
qed

text \<open>
  C6 as stated fails for \<open>k7p/7/8/8/8/8/8/K7\<close>: eight rows, 64 cells, run lengths from 1
  to 8 and none next to another; \<open>from_fen\<close> accepts it, and \<open>to_fen\<close> prints the board
  as \<open>k7/p7/8/8/8/8/8/K7\<close>.
\<close>

theorem fen_round_trip_counterexample:
  "length (split_sep CHR ''/'' ''k7p/7/8/8/8/8/8/K7'') = 8 \<and>
   list_all fen_row_ok (split_sep CHR ''/'' ''k7p/7/8/8/8/8/8/K7'') \<and>
   from_fen ''k7p/7/8/8/8/8/8/K7''
     = Inr \<lparr>squares = ''k.......p...............................................K.......''\<rparr> \<and>
   length ''k.......p...............................................K.......'' = 64 \<and>
   to_fen \<lparr>squares = ''k.......p...............................................K.......''\<rparr>
     = ''k7/p7/8/8/8/8/8/K7'' \<and>
   ''k7/p7/8/8/8/8/8/K7'' \<noteq> ''k7p/7/8/8/8/8/8/K7''"
  by code_simp

section \<open>Insufficient material\<close>

lemma upper_eq_K: "upper c = CHR ''K'' \<longleftrightarrow> c = CHR ''K'' \<or> c = CHR ''k''"
  by (auto simp: upper_def split: if_splits)
lemma upper_eq_B: "upper c = CHR ''B'' \<longleftrightarrow> c = CHR ''B'' \<or> c = CHR ''b''"
  by (auto simp: upper_def split: if_splits)
lemma upper_eq_N: "upper c = CHR ''N'' \<longleftrightarrow> c = CHR ''N'' \<or> c = CHR ''n''"
  by (auto simp: upper_def split: if_splits)

lemma kings_split:
  assumes "count M k1 = 1" "count M k2 = 1" "k1 \<noteq> k2"
  shows "M = {#k1, k2#} + filter_mset (\<lambda>x. x \<noteq> k1 \<and> x \<noteq> k2) M"
proof (rule multiset_eqI)
  fix x show "count M x = count ({#k1, k2#} + filter_mset (\<lambda>x. x \<noteq> k1 \<and> x \<noteq> k2) M) x"
    using assms by auto
qed

lemma single_filtered:
  "size R = 1 \<and> size (filter_mset P R) = 1 \<longleftrightarrow> (\<exists>x. P x \<and> R = {#x#})"
proof
  assume a: "size R = 1 \<and> size (filter_mset P R) = 1"
  then have "size R = 1" by simp
  from size_1_singleton_mset [OF this] obtain x where x: "R = {#x#}" by blast
  with a have "P x" by (cases "P x") auto
  with x show "\<exists>x. P x \<and> R = {#x#}" by blast
next
  assume "\<exists>x. P x \<and> R = {#x#}"
  then show "size R = 1 \<and> size (filter_mset P R) = 1" by auto
qed

lemma two_kings_rest:
  assumes "M = {#a, b#} + R"
  shows "M = {#a, b#} \<longleftrightarrow> R = {#}" and "M = {#a, b, x#} \<longleftrightarrow> R = {#x#}"
proof -
  show "M = {#a, b#} \<longleftrightarrow> R = {#}" unfolding assms by simp
  have "{#a, b, x#} = {#a, b#} + {#x#}" by simp
  then show "M = {#a, b, x#} \<longleftrightarrow> R = {#x#}" unfolding assms by (simp only: add_left_cancel)
qed

text \<open>
  C8: with one king of each colour on the board, \<open>insufficient_material\<close> holds exactly
  when the pieces are the two kings, or the two kings and one bishop or knight of either
  colour.
\<close>

theorem insufficient_material_iff:
  assumes "one_king_per_color (squares (board state))"
  shows "insufficient_material state \<longleftrightarrow>
     mset (pieces (squares (board state))) = {#CHR ''K'', CHR ''k''#} \<or>
     (\<exists>x \<in> {CHR ''B'', CHR ''N'', CHR ''b'', CHR ''n''}.
        mset (pieces (squares (board state))) = {#CHR ''K'', CHR ''k'', x#})"
proof -
  let ?ps = "pieces (squares (board state))"
  let ?M = "mset ?ps"
  let ?R = "filter_mset (\<lambda>x. x \<noteq> CHR ''K'' \<and> x \<noteq> CHR ''k'') ?M"
  let ?minor = "\<lambda>p. upper p \<in> {CHR ''B'', CHR ''N''}"
  have cnt: "count ?M CHR ''K'' = 1" "count ?M CHR ''k'' = 1"
    using assms by (simp_all add: one_king_per_color_def pieces_def count_mset)
  from kings_split [OF this] have M: "?M = {#CHR ''K'', CHR ''k''#} + ?R" by simp
  have all_kings: "(\<forall>p \<in> set ?ps. upper p = CHR ''K'') \<longleftrightarrow> ?R = {#}"
    by (auto simp: upper_eq_K)
  have len: "length ?ps = 2 + size ?R"
    using arg_cong [OF M, of size] by simp
  have "mset (filter ?minor ?ps) = filter_mset ?minor ({#CHR ''K'', CHR ''k''#} + ?R)"
    using M by (metis mset_filter)
  also have "\<dots> = filter_mset ?minor ?R"
    by (simp add: upper_eq_B upper_eq_N)
  finally have "size (filter_mset ?minor ?R) = length (filter ?minor ?ps)"
    by (metis size_mset)
  then have minors: "length (filter ?minor ?ps) = size (filter_mset ?minor ?R)" by simp
  have "insufficient_material state \<longleftrightarrow>
      (\<forall>p \<in> set ?ps. upper p = CHR ''K'') \<or> (length ?ps = 3 \<and> length (filter ?minor ?ps) = 1)"
    by (simp add: insufficient_material_def Let_def pieces_def)
  also have "\<dots> \<longleftrightarrow> ?R = {#} \<or> (2 + size ?R = 3 \<and> size (filter_mset ?minor ?R) = 1)"
    by (simp only: all_kings len minors)
  also have "\<dots> \<longleftrightarrow> ?R = {#} \<or> (size ?R = 1 \<and> size (filter_mset ?minor ?R) = 1)"
    by auto
  finally have ins: "insufficient_material state \<longleftrightarrow>
      ?R = {#} \<or> (size ?R = 1 \<and> size (filter_mset ?minor ?R) = 1)" .
  have one: "size ?R = 1 \<and> size (filter_mset ?minor ?R) = 1 \<longleftrightarrow>
      (\<exists>x \<in> {CHR ''B'', CHR ''N'', CHR ''b'', CHR ''n''}. ?R = {#x#})"
    unfolding single_filtered by (auto simp: upper_eq_B upper_eq_N)
  note e1 = two_kings_rest(1) [OF M] and e2 = two_kings_rest(2) [OF M]
  show ?thesis unfolding ins one e1 e2 ..
qed

theorem insufficient_material_iff_witness:
  "one_king_per_color (squares (board knight_state)) \<and>
   (insufficient_material knight_state \<longleftrightarrow>
     mset (pieces (squares (board knight_state))) = {#CHR ''K'', CHR ''k''#} \<or>
     (\<exists>x \<in> {CHR ''B'', CHR ''N'', CHR ''b'', CHR ''n''}.
        mset (pieces (squares (board knight_state))) = {#CHR ''K'', CHR ''k'', x#}))"
proof -
  have "one_king_per_color (squares (board knight_state))"
    by (simp add: one_king_per_color_def knight_state_def new_state_def update_repetition_def rep_inc_def Let_def)
  with insufficient_material_iff [of knight_state] show ?thesis by blast
qed

section \<open>Draws in the search\<close>

text \<open>
  C3: at a position whose halfmove clock is at least 100, or whose repetition key has
  been counted at least three times, \<open>alpha_beta\<close> returns the score 0 and leaves the
  state as it is, whatever the depth, the window and the evaluator, as soon as the bound
  on the nested calls lets it run at all.
\<close>

theorem alpha_beta_draw:
  "halfmove_clock state \<ge> 100 \<or> (\<exists>c\<ge>3. repetition state (repetition_key state) = Some c) \<Longrightarrow>
   is_draw_by_repetition state = (\<exists>c\<ge>3. repetition state (repetition_key state) = Some c) \<and>
   alpha_beta (Suc n) model quiescence_depth state depth alpha beta = Some (Inr (Fin 0, state))"
  by (auto simp: is_draw_by_repetition_def split: option.splits)

theorem alpha_beta_draw_witness:
  "halfmove_clock knight_state \<ge> 100 \<and>
   alpha_beta (Suc 0) None 3 knight_state 2 NegInf PosInf = Some (Inr (Fin 0, knight_state)) \<and>
   (\<exists>c\<ge>3. repetition (queens_state\<lparr>repetition := (\<lambda>k. Some 3)\<rparr>)
              (repetition_key (queens_state\<lparr>repetition := (\<lambda>k. Some 3)\<rparr>)) = Some c) \<and>
   alpha_beta (Suc 0) None 3 (queens_state\<lparr>repetition := (\<lambda>k. Some 3)\<rparr>) 2 NegInf PosInf
     = Some (Inr (Fin 0, queens_state\<lparr>repetition := (\<lambda>k. Some 3)\<rparr>))"
proof -
  let ?q = "queens_state\<lparr>repetition := (\<lambda>k. Some 3)\<rparr>"
  have 1: "halfmove_clock knight_state \<ge> 100"
    by (simp add: knight_state_def new_state_def update_repetition_def rep_inc_def Let_def)
  have 2: "\<exists>c\<ge>3. repetition ?q (repetition_key ?q) = Some c" by simp
  from alpha_beta_draw [of knight_state 0 None 3 2 NegInf PosInf] 1
    alpha_beta_draw [of ?q 0 None 3 2 NegInf PosInf] 2
  show ?thesis by blast
qed

section \<open>The material evaluation\<close>

text \<open>
  C7: the material evaluation is not confined to the interval from -1 to 1. With five
  white queens against the bare king and White to move it returns 4500 / 4000.
\<close>

theorem simple_material_eval_exceeds_one:
  "state_from_fen ''k7/8/8/8/8/8/8/KQQQQQ2'' ''w'' ''-'' ''-'' 0 1 = Inr queens_state \<and>
   evaluate_position queens_state None = Inr (9 / 8) \<and> (9 / 8 :: real) > 1"
proof -
  have "state_from_fen ''k7/8/8/8/8/8/8/KQQQQQ2'' ''w'' ''-'' ''-'' 0 1 = Inr queens_state"
    by (simp add: state_from_fen_def from_fen_def fen_cells_def isdigit_def int_of_digit_def
        queens_state_def numeral_eq_Suc)
  moreover have "evaluate_position queens_state None = Inr (9 / 8)"
    by (simp add: evaluate_position_def simple_material_eval_def queens_state_def new_state_def
        update_repetition_def Let_def PIECE_VALUES_def upper_def piece_color_def isupper_def)
  ultimately show ?thesis by simp
qed

section \<open>The shape of the generated moves\<close>

lemma sq_values [simp]:
  "sq ''a1'' = 56" "sq ''b1'' = 57" "sq ''c1'' = 58" "sq ''d1'' = 59"
  "sq ''f1'' = 61" "sq ''g1'' = 62" "sq ''h1'' = 63"
  "sq ''a8'' = 0" "sq ''b8'' = 1" "sq ''c8'' = 2" "sq ''d8'' = 3"
  "sq ''f8'' = 5" "sq ''g8'' = 6" "sq ''h8'' = 7"
  by (simp_all add: sq_def square_to_index_def FILES_def RANKS_def int_of_digit_def)

lemma promo_moves_mem:
  "m \<in> set (promo_moves idx dest cap) \<longleftrightarrow>
   (\<exists>p \<in> set ''QRBN''. m = \<lparr>from_square = idx, to_square = dest, promotion = Some p,
      is_castle = False, is_en_passant = False, captured = cap\<rparr>)"
  by (auto simp: promo_moves_def mk_move_def)

lemma square_coords:
  assumes "0 \<le> idx" "idx < 64"
  obtains r c :: int where "idx = r * 8 + c" "0 \<le> r" "r < 8" "0 \<le> c" "c < 8"
proof
  show "idx = (idx div 8) * 8 + idx mod 8" by simp
  show "0 \<le> idx div 8" "idx div 8 < 8" "0 \<le> idx mod 8" "idx mod 8 < 8" using assms by auto
qed

lemma coords_div_mod [simp]:
  "0 \<le> c \<Longrightarrow> c < 8 \<Longrightarrow> (r * 8 + c) div 8 = (r :: int)"
  "0 \<le> c \<Longrightarrow> c < 8 \<Longrightarrow> (r * 8 + c) mod 8 = (c :: int)"
  by auto

lemma pawn_pushes_shape:
  assumes m: "m \<in> set (pawn_pushes s idx)" and idx: "0 \<le> idx" "idx < 64"
  defines "b \<equiv> squares (board s)"
  defines "dir \<equiv> (if side_to_move s = ''w'' then - 1 else 1 :: int)"
  shows "from_square m = idx \<and> \<not> is_castle m \<and> \<not> is_en_passant m \<and> captured m = None \<and>
    0 \<le> to_square m \<and> to_square m < 64 \<and> b ! nat (to_square m) = CHR ''.'' \<and>
    (promotion m = None \<or> promotion m \<in> Some ` set ''QRBN'') \<and>
    (to_square m - idx = 8 * dir \<or>
     to_square m - idx = 16 * dir \<and> idx div 8 = (if side_to_move s = ''w'' then 6 else 1) \<and>
       promotion m = None \<and> b ! nat (idx + 8 * dir) = CHR ''.'')"
proof -
  from idx obtain r c where rc: "idx = r * 8 + c" "0 \<le> r" "r < 8" "0 \<le> c" "c < 8"
    by (rule square_coords)
  have e: "(r - 1) * 8 + c = r * 8 + c - 8" "(r + 1) * 8 + c = r * 8 + c + 8"
    "(r - 2) * 8 + c = r * 8 + c - 16" "(r + 2) * 8 + c = r * 8 + c + 16" by simp_all
  show ?thesis
  proof (cases "side_to_move s = ''w''")
    case True
    with m rc show ?thesis
      unfolding pawn_pushes_def b_def dir_def
      by (auto simp: Let_def promo_moves_mem mk_move_def on_board_def e split: if_splits)
  next
    case False
    with m rc show ?thesis
      unfolding pawn_pushes_def b_def dir_def
      by (auto simp: Let_def promo_moves_mem mk_move_def on_board_def e split: if_splits)
  qed
qed


lemma pawn_captures_shape:
  assumes m: "m \<in> set (pawn_captures s idx dc)" and idx: "0 \<le> idx" "idx < 64"
    and dc: "dc = - 1 \<or> dc = 1"
  defines "b \<equiv> squares (board s)"
  defines "dir \<equiv> (if side_to_move s = ''w'' then - 1 else 1 :: int)"
  defines "enemy \<equiv> (if side_to_move s = ''w'' then ''b'' else ''w'')"
  shows "from_square m = idx \<and> \<not> is_castle m \<and> 0 \<le> to_square m \<and> to_square m < 64 \<and>
    (promotion m = None \<or> promotion m \<in> Some ` set ''QRBN'') \<and>
    to_square m - idx = 8 * dir + dc \<and>
    (\<not> is_en_passant m \<longrightarrow>
       b ! nat (to_square m) \<noteq> CHR ''.'' \<and> piece_color (b ! nat (to_square m)) = Some enemy \<and>
       captured m = Some (b ! nat (to_square m))) \<and>
    (is_en_passant m \<longrightarrow>
       en_passant s = Some (to_square m) \<and> promotion m = None \<and> captured m = None \<and>
       0 \<le> to_square m - 8 * dir \<and> to_square m - 8 * dir < 64)"
proof -
  from idx obtain r c where rc: "idx = r * 8 + c" "0 \<le> r" "r < 8" "0 \<le> c" "c < 8"
    by (rule square_coords)
  have e: "(r - 1) * 8 + (c + dc) = r * 8 + c - 8 + dc" "(r + 1) * 8 + (c + dc) = r * 8 + c + 8 + dc"
    by simp_all
  show ?thesis
  proof (cases "side_to_move s = ''w''")
    case True
    with m rc show ?thesis
      unfolding pawn_captures_def b_def dir_def enemy_def
      by (auto simp: Let_def promo_moves_mem mk_move_def on_board_def e split: if_splits)
  next
    case False
    with m rc show ?thesis
      unfolding pawn_captures_def b_def dir_def enemy_def
      by (auto simp: Let_def promo_moves_mem mk_move_def on_board_def e split: if_splits)
  qed
qed

lemma step_moves_shape:
  assumes "m \<in> set (step_moves b enemy idx steps)" "0 \<le> idx" "idx < 64"
  shows "from_square m = idx \<and> \<not> is_castle m \<and> \<not> is_en_passant m \<and> promotion m = None \<and>
   0 \<le> to_square m \<and> to_square m < 64 \<and>
   (b ! nat (to_square m) = CHR ''.'' \<or> piece_color (b ! nat (to_square m)) = Some enemy) \<and>
   captured m = (if b ! nat (to_square m) = CHR ''.'' then None else Some (b ! nat (to_square m)))"
proof -
  from assms(2,3) obtain r c where rc: "idx = r * 8 + c" "0 \<le> r" "r < 8" "0 \<le> c" "c < 8"
    by (rule square_coords)
  from assms(1) obtain dr dc where d: "(dr, dc) \<in> set steps"
    and ob: "on_board (r + dr) (c + dc)"
    and mm: "b ! nat ((r + dr) * 8 + (c + dc)) = CHR ''.'' \<or>
             piece_color (b ! nat ((r + dr) * 8 + (c + dc))) = Some enemy"
       "m = (mk_move idx ((r + dr) * 8 + (c + dc)))
          \<lparr>captured := (if b ! nat ((r + dr) * 8 + (c + dc)) \<noteq> CHR ''.''
                         then Some (b ! nat ((r + dr) * 8 + (c + dc))) else None)\<rparr>"
    unfolding step_moves_def Let_def using rc
    by (auto split: if_splits simp del: distrib_right distrib_left simp: )
  from ob have "0 \<le> (r + dr) * 8 + (c + dc)" "(r + dr) * 8 + (c + dc) < 64"
    by (auto simp: on_board_def)
  with mm show ?thesis by (auto simp: mk_move_def)
qed


lemma ray_moves_shape:
  "m \<in> set (ray_moves b enemy idx nr nc dr dc) \<Longrightarrow>
   from_square m = idx \<and> \<not> is_castle m \<and> \<not> is_en_passant m \<and> promotion m = None \<and>
   0 \<le> to_square m \<and> to_square m < 64 \<and>
   (b ! nat (to_square m) = CHR ''.'' \<or> piece_color (b ! nat (to_square m)) = Some enemy) \<and>
   captured m = (if b ! nat (to_square m) = CHR ''.'' then None else Some (b ! nat (to_square m)))"
proof (induction b enemy idx nr nc dr dc rule: ray_moves.induct)
  case (1 b enemy idx nr nc dr dc)
  let ?dest = "nr * 8 + nc"
  from "1.prems" have ob: "on_board nr nc \<and> (dr \<noteq> 0 \<or> dc \<noteq> 0)"
    by (subst (asm) ray_moves.simps) (simp split: if_splits)
  then have rng: "0 \<le> ?dest \<and> ?dest < 64" by (auto simp: on_board_def)
  show ?case
  proof (cases "b ! nat ?dest = CHR ''.''")
    case True
    with "1.prems" ob have "m = mk_move idx ?dest \<or> m \<in> set (ray_moves b enemy idx (nr + dr) (nc + dc) dr dc)"
      by (subst (asm) ray_moves.simps) (simp add: Let_def)
    then show ?thesis
    proof
      assume "m = mk_move idx ?dest"
      with True rng show ?thesis by (simp add: mk_move_def)
    next
      assume "m \<in> set (ray_moves b enemy idx (nr + dr) (nc + dc) dr dc)"
      with "1.IH" [OF ob refl refl True] show ?thesis .
    qed
  next
    case False
    with "1.prems" ob have "piece_color (b ! nat ?dest) = Some enemy \<and>
        m = (mk_move idx ?dest)\<lparr>captured := Some (b ! nat ?dest)\<rparr>"
      by (subst (asm) ray_moves.simps) (simp add: Let_def split: if_splits)
    with False rng show ?thesis by (simp add: mk_move_def)
  qed
qed


lemma slider_moves_shape:
  "m \<in> set (slider_moves b enemy idx up) \<Longrightarrow>
   from_square m = idx \<and> \<not> is_castle m \<and> \<not> is_en_passant m \<and> promotion m = None \<and>
   0 \<le> to_square m \<and> to_square m < 64 \<and>
   (b ! nat (to_square m) = CHR ''.'' \<or> piece_color (b ! nat (to_square m)) = Some enemy) \<and>
   captured m = (if b ! nat (to_square m) = CHR ''.'' then None else Some (b ! nat (to_square m)))"
  unfolding slider_moves_def Let_def
  by (auto dest!: ray_moves_shape split: if_splits)


lemma castle_moves_mem:
  "m \<in> set (castle_moves s enemy idx right empties safe dest) \<longleftrightarrow>
   m = (mk_move idx dest)\<lparr>is_castle := True\<rparr> \<and> right \<in> set (castling_rights s) \<and>
   (\<forall>e \<in> set empties. squares (board s) ! nat e = CHR ''.'') \<and>
   \<not> is_square_attacked s idx enemy \<and> (\<forall>q \<in> set safe. \<not> is_square_attacked s q enemy)"
  by (auto simp: castle_moves_def)

lemma row7_col4: "idx div 8 = 7 \<and> idx mod 8 = 4 \<longleftrightarrow> idx = (60 :: int)"
  by presburger

lemma row0_col4: "idx div 8 = 0 \<and> idx mod 8 = 4 \<longleftrightarrow> idx = (4 :: int)"
  by presburger

lemma castling_moves_shape:
  assumes "m \<in> set (castling_moves s idx)"
  defines "b \<equiv> squares (board s)"
  shows "from_square m = idx \<and> is_castle m \<and> \<not> is_en_passant m \<and> promotion m = None \<and>
    captured m = None \<and> b ! nat (to_square m) = CHR ''.'' \<and>
    ((idx = 60 \<and> to_square m = 62 \<and> b ! 61 = CHR ''.'') \<or>
     (idx = 60 \<and> to_square m = 58 \<and> b ! 59 = CHR ''.'') \<or>
     (idx = 4 \<and> to_square m = 6 \<and> b ! 5 = CHR ''.'') \<or>
     (idx = 4 \<and> to_square m = 2 \<and> b ! 3 = CHR ''.''))"
  using assms(1) unfolding castling_moves_def Let_def b_def row7_col4 row0_col4
  by (auto simp: castle_moves_mem mk_move_def split: if_splits)

lemma upper_eq_P: "upper c = CHR ''P'' \<longleftrightarrow> c = CHR ''P'' \<or> c = CHR ''p''"
  by (simp add: upper_def)

lemma piece_moves_generated:
  assumes m: "m \<in> set (piece_moves s idx)" and idx: "0 \<le> idx" "idx < 64"
  shows "generated s m \<and> from_square m = idx"
proof -
  let ?b = "squares (board s)"
  let ?p = "?b ! nat idx"
  let ?enemy = "(if side_to_move s = ''w'' then ''b'' else ''w'')"
  from m have pc: "piece_color ?p = Some (side_to_move s)"
    unfolding piece_moves_def Let_def by (auto split: if_splits)
  consider (pawn) "upper ?p = CHR ''P''" "m \<in> set (pawn_pushes s idx)"
    | (cap) dc where "upper ?p = CHR ''P''" "m \<in> set (pawn_captures s idx dc)" "dc = - 1 \<or> dc = 1"
    | (step) "upper ?p \<noteq> CHR ''P''" "m \<in> set (step_moves ?b ?enemy idx knight_steps)"
    | (slide) "upper ?p \<noteq> CHR ''P''" "m \<in> set (slider_moves ?b ?enemy idx (upper ?p))"
    | (king) "upper ?p = CHR ''K''" "m \<in> set (step_moves ?b ?enemy idx king_dirs)"
    | (castle) "upper ?p = CHR ''K''" "m \<in> set (castling_moves s idx)"
    using m unfolding piece_moves_def Let_def pawn_moves_def
    by (auto split: if_splits)
  then show ?thesis
  proof cases
    case pawn
    from pawn_pushes_shape [OF pawn(2) idx] pawn(1) pc idx show ?thesis
      unfolding generated_def Let_def by (auto split: if_splits)
  next
    case cap
    from pawn_captures_shape [OF cap(2) idx cap(3)] cap(1,3) pc idx show ?thesis
      unfolding generated_def Let_def by (auto split: if_splits)
  next
    case step
    from step_moves_shape [OF step(2) idx] step(1) pc idx show ?thesis
      unfolding generated_def Let_def by auto
  next
    case slide
    from slider_moves_shape [OF slide(2)] slide(1) pc idx show ?thesis
      unfolding generated_def Let_def by auto
  next
    case king
    from step_moves_shape [OF king(2) idx] king(1) pc idx show ?thesis
      unfolding generated_def Let_def by auto
  next
    case castle
    from castling_moves_shape [OF castle(2)] castle(1) pc idx show ?thesis
      unfolding generated_def Let_def by auto
  qed
qed

lemma pseudo_legal_generated:
  assumes "length (squares (board s)) = 64" "m \<in> set (generate_pseudo_legal_moves s)"
  shows "generated s m"
proof -
  from assms obtain i where "i < 64" "m \<in> set (piece_moves s (int i))"
    unfolding generate_pseudo_legal_moves_def by auto
  then show ?thesis using piece_moves_generated [of m s "int i"] by simp
qed

section \<open>Applying a move and taking it back\<close>

lemma getitem_in [simp]: "0 \<le> i \<Longrightarrow> i < int (length xs) \<Longrightarrow> getitem xs i = Inr (xs ! nat i)"
  by (simp add: getitem_def py_index_def)

lemma setitem_in [simp]: "0 \<le> i \<Longrightarrow> i < int (length xs) \<Longrightarrow> setitem xs i v = Inr (xs[nat i := v])"
  by (simp add: setitem_def py_index_def)

lemma upd_restore_plain:
  "i < length xs \<Longrightarrow> j < length xs \<Longrightarrow> c = xs ! i \<Longrightarrow> d = xs ! j \<Longrightarrow>
   xs[i := a, j := b, i := c, j := d] = xs"
  by (auto simp add: list_eq_iff_nth_eq nth_list_update)

lemma upd_restore_promo:
  "i < length xs \<Longrightarrow> j < length xs \<Longrightarrow> c = xs ! i \<Longrightarrow> d = xs ! j \<Longrightarrow> i \<noteq> j \<Longrightarrow>
   xs[i := a, j := b, i := c, j := d, i := c] = xs"
  by (auto simp add: list_eq_iff_nth_eq nth_list_update)

lemma upd_restore_ep:
  "i < length xs \<Longrightarrow> j < length xs \<Longrightarrow> k < length xs \<Longrightarrow> xs ! j = d \<Longrightarrow>
   c = xs ! i \<Longrightarrow> q = xs ! k \<Longrightarrow>
   xs[k := d, i := d, j := p, i := c, j := d, k := q] = xs"
  by (auto simp add: list_eq_iff_nth_eq nth_list_update)

lemma upd_restore_castle:
  assumes "i < length xs" "j < length xs" "rf < length xs" "rt < length xs"
    "xs ! j = d" "xs ! rt = d" "rf \<noteq> i" "rf \<noteq> j" "c = xs ! i" "q = xs ! rf"
  shows "xs[i := d, j := p, rf := d, rt := q, i := c, j := d, rf := q, rt := d] = xs"
  using assms by (auto simp add: list_eq_iff_nth_eq nth_list_update)

lemma make_board_plain:
  assumes "length b = 64" "0 \<le> from_square m" "from_square m < 64" "0 \<le> to_square m" "to_square m < 64"
    "b ! nat (from_square m) \<noteq> CHR ''.''" "\<not> is_en_passant m" "\<not> is_castle m"
  shows "make_board b side m = Inr (b ! nat (from_square m),
      (if b ! nat (to_square m) \<noteq> CHR ''.'' then Some (b ! nat (to_square m)) else None),
      None, None,
      b[nat (from_square m) := CHR ''.'',
        nat (to_square m) := (case promotion m of None \<Rightarrow> b ! nat (from_square m)
             | Some promo \<Rightarrow> if side = ''w'' then upper promo else lower promo)])"
  using assms by (simp add: make_board_def Let_def)

lemma make_board_ep:
  assumes "length b = 64" "0 \<le> from_square m" "from_square m < 64" "0 \<le> to_square m" "to_square m < 64"
    "b ! nat (from_square m) \<noteq> CHR ''.''" "is_en_passant m" "\<not> is_castle m"
    "0 \<le> ep_sq" "ep_sq < 64" "ep_sq = (if side = ''w'' then to_square m + 8 else to_square m - 8)"
    "promotion m = None"
  shows "make_board b side m = Inr (b ! nat (from_square m), Some (b ! nat ep_sq), Some ep_sq, None,
      b[nat ep_sq := CHR ''.'', nat (from_square m) := CHR ''.'',
        nat (to_square m) := b ! nat (from_square m)])"
  using assms by (simp add: make_board_def Let_def)

lemma castle_rook_squares_values [simp]:
  "castle_rook_squares 62 = Some (63, 61)" "castle_rook_squares 58 = Some (56, 59)"
  "castle_rook_squares 6 = Some (7, 5)" "castle_rook_squares 2 = Some (0, 3)"
  by (simp_all add: castle_rook_squares_def sq_def square_to_index_def FILES_def RANKS_def int_of_digit_def)

lemma make_board_castle:
  assumes "length b = 64" "b ! nat (from_square m) \<noteq> CHR ''.''" "\<not> is_en_passant m" "is_castle m"
    "promotion m = None" "b ! nat (to_square m) = CHR ''.''"
    "(from_square m, to_square m, rf, rt) \<in> {(60, 62, 63, 61), (60, 58, 56, 59), (4, 6, 7, 5), (4, 2, 0, 3)}"
  shows "make_board b side m = Inr (b ! nat (from_square m), None, None,
      Some (rf, rt, b ! nat rf),
      b[nat (from_square m) := CHR ''.'', nat (to_square m) := b ! nat (from_square m),
        nat rf := CHR ''.'', nat rt := b ! nat rf])"
  using assms by (auto simp add: make_board_def Let_def)


lemma generated_facts:
  assumes "generated s m"
  shows "0 \<le> from_square m" "from_square m < 64" "0 \<le> to_square m" "to_square m < 64"
    "squares (board s) ! nat (from_square m) \<noteq> CHR ''.''"
    "piece_color (squares (board s) ! nat (from_square m)) = Some (side_to_move s)"
  using assms by (auto simp: generated_def Let_def piece_color_def split: if_splits)

lemma make_undo_board:
  assumes len: "length (squares (board s)) = 64" and g: "generated s m" and ep: "ep_target_empty s"
  shows "\<exists>cp eps rm b'.
     make_board (squares (board s)) (side_to_move s) m
       = Inr (squares (board s) ! nat (from_square m), cp, eps, rm, b') \<and>
     length b' = 64 \<and>
     (\<forall>e. h_move e = m \<and> h_captured e = cp \<and>
          h_moved_piece e = squares (board s) ! nat (from_square m) \<and>
          h_rook_move e = rm \<and> h_ep_capture_square e = eps \<longrightarrow>
          undo_board b' e = Inr (squares (board s)))"
proof -
  let ?b = "squares (board s)"
  let ?f = "from_square m" and ?t = "to_square m"
  note gf = generated_facts [OF g]
  consider (ep) "is_en_passant m" | (castle) "is_castle m" "\<not> is_en_passant m"
    | (plain) "\<not> is_en_passant m" "\<not> is_castle m" by blast
  then show ?thesis
  proof cases
    case plain
    from g plain have cap: "captured m = (if ?b ! nat ?t = CHR ''.'' then None else Some (?b ! nat ?t))"
      and pr: "promotion m \<noteq> None \<longrightarrow> ?f \<noteq> ?t"
      by (auto simp: generated_def Let_def split: if_splits)
    define cp where "cp = (if ?b ! nat ?t \<noteq> CHR ''.'' then Some (?b ! nat ?t) else None)"
    define b' where "b' = ?b[nat ?f := CHR ''.'', nat ?t := (case promotion m of None \<Rightarrow> ?b ! nat ?f
             | Some promo \<Rightarrow> if side_to_move s = ''w'' then upper promo else lower promo)]"
    have t_cell: "(case cp of None \<Rightarrow> CHR ''.'' | Some c \<Rightarrow> c) = ?b ! nat ?t"
      by (simp add: cp_def)
    have mk: "make_board ?b (side_to_move s) m = Inr (?b ! nat ?f, cp, None, None, b')"
      unfolding make_board_plain [OF len gf(1-5) plain] cp_def b'_def ..
    have len': "length b' = 64" using len by (simp add: b'_def)
    have un: "undo_board b' e = Inr ?b"
      if e: "h_move e = m \<and> h_captured e = cp \<and> h_moved_piece e = ?b ! nat ?f \<and>
             h_rook_move e = None \<and> h_ep_capture_square e = None" for e
    proof (cases "promotion m")
      case None
      with e len gf plain show ?thesis
        unfolding undo_board_def Let_def b'_def
        by (simp add: upd_restore_plain t_cell)
    next
      case (Some p)
      with pr have "nat ?f \<noteq> nat ?t" using gf by auto
      with Some e len gf plain show ?thesis
        unfolding undo_board_def Let_def b'_def
        by (simp add: upd_restore_promo t_cell)
    qed
    show ?thesis
      apply (rule exI [of _ cp], rule exI [of _ None], rule exI [of _ None], rule exI [of _ b'])
      using mk len' un by simp
  next
    case ep
    define ep_sq where "ep_sq = (if side_to_move s = ''w'' then ?t + 8 else ?t - 8)"
    from g ep have nc: "\<not> is_castle m" and pr: "promotion m = None"
      and tgt: "en_passant s = Some ?t"
      and rng: "0 \<le> ep_sq" "ep_sq < 64"
      by (auto simp: generated_def Let_def ep_sq_def split: if_splits)
    from tgt \<open>ep_target_empty s\<close> gf have empty: "?b ! nat ?t = CHR ''.''"
      by (simp add: ep_target_empty_def)
    define b' where "b' = ?b[nat ep_sq := CHR ''.'', nat ?f := CHR ''.'', nat ?t := ?b ! nat ?f]"
    have mk: "make_board ?b (side_to_move s) m
        = Inr (?b ! nat ?f, Some (?b ! nat ep_sq), Some ep_sq, None, b')"
      unfolding b'_def by (rule make_board_ep [OF len gf(1-5) ep nc rng ep_sq_def pr])
    have len': "length b' = 64" using len by (simp add: b'_def)
    have un: "undo_board b' e = Inr ?b"
      if e: "h_move e = m \<and> h_captured e = Some (?b ! nat ep_sq) \<and> h_moved_piece e = ?b ! nat ?f \<and>
             h_rook_move e = None \<and> h_ep_capture_square e = Some ep_sq" for e
      using e len gf ep nc pr rng empty
      unfolding undo_board_def Let_def b'_def
      by (simp add: upd_restore_ep)
    show ?thesis
      apply (rule exI [of _ "Some (?b ! nat ep_sq)"], rule exI [of _ "Some ep_sq"],
          rule exI [of _ None], rule exI [of _ b'])
      using mk len' un by simp
  next
    case castle
    from g castle have pr: "promotion m = None" and empty: "?b ! nat ?t = CHR ''.''"
      and sqs: "(?f = 60 \<and> ?t = 62 \<and> ?b ! 61 = CHR ''.'') \<or> (?f = 60 \<and> ?t = 58 \<and> ?b ! 59 = CHR ''.'') \<or>
            (?f = 4 \<and> ?t = 6 \<and> ?b ! 5 = CHR ''.'') \<or> (?f = 4 \<and> ?t = 2 \<and> ?b ! 3 = CHR ''.'')"
      by (auto simp: generated_def Let_def split: if_splits)
    have gen: ?thesis
      if r: "(?f, ?t, rf, rt) \<in> {(60, 62, 63, 61), (60, 58, 56, 59), (4, 6, 7, 5), (4, 2, 0, 3)}"
        and rt: "?b ! nat rt = CHR ''.''" for rf rt :: int
    proof -
      define b' where "b' = ?b[nat ?f := CHR ''.'', nat ?t := ?b ! nat ?f,
          nat rf := CHR ''.'', nat rt := ?b ! nat rf]"
      have mk: "make_board ?b (side_to_move s) m
          = Inr (?b ! nat ?f, None, None, Some (rf, rt, ?b ! nat rf), b')"
        unfolding b'_def by (rule make_board_castle [OF len gf(5) castle(2,1) pr empty r])
      have len': "length b' = 64" using len by (simp add: b'_def)
      have un: "undo_board b' e = Inr ?b"
        if e: "h_move e = m \<and> h_captured e = None \<and> h_moved_piece e = ?b ! nat ?f \<and>
               h_rook_move e = Some (rf, rt, ?b ! nat rf) \<and> h_ep_capture_square e = None" for e
        using e len castle pr empty r rt
        unfolding undo_board_def Let_def b'_def
        by (auto simp add: upd_restore_castle)
      show ?thesis
        apply (rule exI [of _ None], rule exI [of _ None],
            rule exI [of _ "Some (rf, rt, ?b ! nat rf)"], rule exI [of _ b'])
        using mk len' un by simp
    qed
    from sqs show ?thesis
    proof (elim disjE conjE)
      assume "?f = 60" "?t = 62" "?b ! 61 = CHR ''.''"
      then show ?thesis using gen [of 63 61] by simp
    next
      assume "?f = 60" "?t = 58" "?b ! 59 = CHR ''.''"
      then show ?thesis using gen [of 56 59] by simp
    next
      assume "?f = 4" "?t = 6" "?b ! 5 = CHR ''.''"
      then show ?thesis using gen [of 7 5] by simp
    next
      assume "?f = 4" "?t = 2" "?b ! 3 = CHR ''.''"
      then show ?thesis using gen [of 0 3] by simp
    qed
  qed
qed


lemma repetition_key_indep [simp]:
  "repetition_key (s\<lparr>repetition := r\<rparr>) = repetition_key s"
  "repetition_key (s\<lparr>history := h\<rparr>) = repetition_key s"
  by (simp_all add: repetition_key_def)

lemma rep_dec_inc:
  assumes "\<forall>k c. rep k = Some c \<longrightarrow> c \<ge> 1"
  shows "rep_dec (rep_inc rep key) key = rep"
proof (cases "rep key")
  case None then show ?thesis by (auto simp: rep_dec_def rep_inc_def fun_upd_idem)
next
  case (Some c)
  with assms have "c \<ge> 1" by blast
  with Some show ?thesis by (auto simp: rep_dec_def rep_inc_def fun_upd_idem)
qed

lemma make_undo:
  assumes ok: "state_ok s" and g: "generated s m" and ep: "ep_target_empty s"
  shows "\<exists>s1. make_move s m = Inr s1 \<and> undo_move s1 = Inr s"
proof -
  let ?b = "squares (board s)"
  from ok have len: "length ?b = 64" and rep: "\<forall>k c. repetition s k = Some c \<longrightarrow> c \<ge> 1"
    by (auto simp: state_ok_def)
  from make_undo_board [OF len g ep] obtain cp eps rm b' where
    mb: "make_board ?b (side_to_move s) m = Inr (?b ! nat (from_square m), cp, eps, rm, b')"
    and ub: "\<And>e. h_move e = m \<and> h_captured e = cp \<and>
          h_moved_piece e = ?b ! nat (from_square m) \<and>
          h_rook_move e = rm \<and> h_ep_capture_square e = eps \<Longrightarrow>
          undo_board b' e = Inr ?b"
    by blast
  define s0 where "s0 = s
            \<lparr>board := (board s)\<lparr>squares := b'\<rparr>,
             side_to_move := (if side_to_move s = ''w'' then ''b'' else ''w''),
             castling_rights := update_castling (?b ! nat (from_square m)) cp m (castling_rights s),
             en_passant :=
               (if upper (?b ! nat (from_square m)) = CHR ''P'' \<and> \<bar>to_square m - from_square m\<bar> = 16
                then Some ((to_square m + from_square m) div 2) else None),
             halfmove_clock :=
               (if upper (?b ! nat (from_square m)) = CHR ''P'' \<or> cp \<noteq> None then 0
                else halfmove_clock s + 1),
             fullmove_number :=
               (if side_to_move s = ''b'' then fullmove_number s + 1 else fullmove_number s)\<rparr>"
  define e where "e = \<lparr>h_move = m, h_captured = cp, h_moved_piece = ?b ! nat (from_square m),
              h_prev_castling = castling_rights s, h_prev_en_passant = en_passant s,
              h_prev_halfmove = halfmove_clock s, h_prev_fullmove = fullmove_number s,
              h_prev_side = side_to_move s, h_rook_move = rm,
              h_ep_capture_square = eps, h_rep_key = repetition_key s0\<rparr>"
  define s1 where "s1 = s0\<lparr>repetition := rep_inc (repetition s) (repetition_key s0),
      history := history s @ [e]\<rparr>"
  have mk: "make_move s m = Inr s1"
    unfolding make_move_def Let_def mb
    by (simp add: update_repetition_def Let_def s1_def s0_def e_def)
  have "undo_board b' e = Inr ?b" by (rule ub) (simp add: e_def)
  then have un: "undo_move s1 = Inr s"
    unfolding undo_move_def Let_def
    by (simp add: s1_def s0_def e_def rep_dec_inc [OF rep])
  from mk un show ?thesis by blast
qed

section \<open>Squares of the generated moves\<close>

lemma piece_color_enemy:
  "piece_color p = Some (if side = ''w'' then ''b'' else ''w'') \<Longrightarrow> piece_color p \<noteq> Some side"
  by (cases "side = ''w''") auto

lemma piece_color_empty [simp]: "piece_color CHR ''.'' = None"
  by (simp add: piece_color_def)

lemma generated_ep:
  assumes "generated s m" "is_en_passant m" shows "en_passant s = Some (to_square m)"
  using assms unfolding generated_def Let_def by blast

lemma generated_to:
  assumes "generated s m" "\<not> is_en_passant m"
  shows "squares (board s) ! nat (to_square m) = CHR ''.'' \<or>
      piece_color (squares (board s) ! nat (to_square m))
        = Some (if side_to_move s = ''w'' then ''b'' else ''w'')"
  using assms unfolding generated_def Let_def by blast

lemma generated_target:
  assumes "generated s m" "\<not> is_en_passant m"
  shows "piece_color (squares (board s) ! nat (to_square m)) \<noteq> Some (side_to_move s)"
  using generated_to [OF assms]
proof
  assume "squares (board s) ! nat (to_square m) = CHR ''.''"
  then show ?thesis by simp
next
  assume "piece_color (squares (board s) ! nat (to_square m))
      = Some (if side_to_move s = ''w'' then ''b'' else ''w'')"
  then show ?thesis by (rule piece_color_enemy)
qed

lemma state_ok_ep_ok_state: "state_ok ep_ok_state \<and> ep_target_empty ep_ok_state"
  by (simp add: state_ok_def ep_target_empty_def ep_ok_state_def new_state_def
      update_repetition_def rep_inc_def Let_def)

text \<open>
  C10, as amended: on a board of 64 cells every move of \<open>generate_pseudo_legal_moves\<close>
  has both squares in 0..63 and the mover's own piece on its source square, and its
  destination holds a piece of the mover's colour only if the move is the en-passant
  capture onto the position's en-passant target, which the generator emits whatever
  stands on that square.
\<close>

theorem pseudo_legal_squares:
  assumes "length (squares (board s)) = 64" "m \<in> set (generate_pseudo_legal_moves s)"
  shows "0 \<le> from_square m \<and> from_square m \<le> 63 \<and> 0 \<le> to_square m \<and> to_square m \<le> 63 \<and>
    piece_color (squares (board s) ! nat (from_square m)) = Some (side_to_move s) \<and>
    (piece_color (squares (board s) ! nat (to_square m)) = Some (side_to_move s) \<longrightarrow>
       is_en_passant m \<and> en_passant s = Some (to_square m))"
proof -
  from pseudo_legal_generated [OF assms] have g: "generated s m" .
  note gf = generated_facts [OF g]
  have ep: "is_en_passant m \<and> en_passant s = Some (to_square m)"
    if "piece_color (squares (board s) ! nat (to_square m)) = Some (side_to_move s)"
  proof -
    from that generated_target [OF g] have "is_en_passant m" by blast
    with generated_ep [OF g] show ?thesis by blast
  qed
  from gf(1-4) have "0 \<le> from_square m \<and> from_square m \<le> 63 \<and> 0 \<le> to_square m \<and> to_square m \<le> 63"
    by linarith
  with gf(6) ep show ?thesis by blast
qed

theorem pseudo_legal_squares_witness:
  "length (squares (board start_state)) = 64 \<and>
   mk_move 52 36 \<in> set (generate_pseudo_legal_moves start_state) \<and>
   piece_color (squares (board start_state) ! nat (from_square (mk_move 52 36)))
     = Some (side_to_move start_state) \<and>
   piece_color (squares (board start_state) ! nat (to_square (mk_move 52 36)))
     \<noteq> Some (side_to_move start_state)"
proof -
  have 1: "length (squares (board start_state)) = 64" by code_simp
  have 2: "mk_move 52 36 \<in> set (generate_pseudo_legal_moves start_state)" by code_simp
  have 3: "\<not> is_en_passant (mk_move 52 36)" by (simp add: mk_move_def)
  from pseudo_legal_squares [OF 1 2] 1 2 3 show ?thesis by blast
qed

text \<open>
  C10 as stated fails at \<open>4k3/8/4B3/3P4/8/8/8/4K3 w - e6 0 1\<close>: the generator emits the
  en-passant capture d5-e6 although White's own bishop stands on e6.
\<close>

theorem pseudo_legal_self_capture_counterexample:
  "length (squares (board ep_bishop_state)) = 64 \<and>
   ep_capture \<in> set (generate_pseudo_legal_moves ep_bishop_state) \<and>
   piece_color (squares (board ep_bishop_state) ! nat (to_square ep_capture))
     = Some (side_to_move ep_bishop_state)"
  by code_simp

section \<open>Legal moves\<close>

lemma legal_loop_subset:
  "legal_loop s c ps acc = Inr (ms, s') \<Longrightarrow> set ms \<subseteq> set acc \<union> set ps"
proof (induction ps arbitrary: s acc)
  case Nil then show ?case by simp
next
  case (Cons p ps)
  from Cons.prems obtain s1 chk s2 where
    "legal_loop s2 c ps (if \<not> chk then acc @ [p] else acc) = Inr (ms, s')"
    by (auto split: sum.splits)
  from Cons.IH [OF this] show ?case by (auto split: if_splits)
qed

lemma legal_subset_pseudo:
  "generate_legal_moves s = Inr (ms, s') \<Longrightarrow> set ms \<subseteq> set (generate_pseudo_legal_moves s)"
  unfolding generate_legal_moves_def by (drule legal_loop_subset) simp

lemma legal_loop_restores:
  assumes "state_ok s" "ep_target_empty s" "\<forall>m \<in> set ps. generated s m"
    "legal_loop s c ps acc = Inr (ms, s')"
  shows "s' = s \<and>
    (\<forall>m. m \<in> set ms \<longleftrightarrow> m \<in> set acc \<or>
       (m \<in> set ps \<and> (\<exists>s1. make_move s m = Inr s1 \<and> is_in_check s1 c = Inr False)))"
  using assms(3,4)
proof (induction ps arbitrary: acc)
  case Nil then show ?case by auto
next
  case (Cons p ps)
  from Cons.prems(1) have gp: "generated s p" by simp
  from make_undo [OF assms(1) gp assms(2)] obtain s1 where
    s1: "make_move s p = Inr s1" "undo_move s1 = Inr s" by blast
  with Cons.prems(2) obtain chk where chk: "is_in_check s1 c = Inr chk"
    and rest: "legal_loop s c ps (if \<not> chk then acc @ [p] else acc) = Inr (ms, s')"
    by (auto split: sum.splits)
  from Cons.prems(1) have "\<forall>m \<in> set ps. generated s m" by simp
  from Cons.IH [OF this rest] s1 chk show ?case by (cases chk) auto
qed

text \<open>
  C1, as amended: in a state of 64 cells and positive repetition counts whose
  en-passant target, if there is one, is an empty square, \<open>make_move\<close> on a legal move
  followed by \<open>undo_move\<close> raises nothing and gives back the same state: board, side to
  move, castling rights, en-passant target, both clocks, history and repetition table.
\<close>

theorem make_undo_restores:
  assumes "state_ok s" "ep_target_empty s" "generate_legal_moves s = Inr (ms, s')" "m \<in> set ms"
  shows "\<exists>s1. make_move s m = Inr s1 \<and> undo_move s1 = Inr s"
proof -
  from assms(1) have len: "length (squares (board s)) = 64" by (simp add: state_ok_def)
  from legal_subset_pseudo [OF assms(3)] assms(4) have "m \<in> set (generate_pseudo_legal_moves s)"
    by blast
  from make_undo [OF assms(1) pseudo_legal_generated [OF len this] assms(2)] show ?thesis .
qed

theorem make_undo_restores_witness:
  "state_ok ep_ok_state \<and> ep_target_empty ep_ok_state \<and>
   \<not> isl (generate_legal_moves ep_ok_state) \<and>
   ep_capture \<in> set (fst (projr (generate_legal_moves ep_ok_state))) \<and>
   (\<exists>s1. make_move ep_ok_state ep_capture = Inr s1 \<and> undo_move s1 = Inr ep_ok_state)"
proof -
  have 1: "\<not> isl (generate_legal_moves ep_ok_state) \<and>
      ep_capture \<in> set (fst (projr (generate_legal_moves ep_ok_state)))" by code_simp
  then obtain ms s' where 2: "generate_legal_moves ep_ok_state = Inr (ms, s')"
    by (cases "generate_legal_moves ep_ok_state") auto
  with 1 have 3: "ep_capture \<in> set ms" by simp
  from state_ok_ep_ok_state make_undo_restores [OF _ _ 2 3] 1 show ?thesis by blast
qed

text \<open>
  C1 as stated fails at \<open>4k3/8/4p3/3P4/8/8/8/K7 w - e6 0 1\<close>, where a black pawn stands
  on the en-passant target: the en-passant capture d5-e6 is in the legal moves, and after
  \<open>make_move\<close> and \<open>undo_move\<close> the square e6 is empty.
\<close>

theorem make_undo_counterexample:
  "\<not> isl (generate_legal_moves ep_pawn_state) \<and>
   ep_capture \<in> set (fst (projr (generate_legal_moves ep_pawn_state))) \<and>
   \<not> isl (make_move ep_pawn_state ep_capture) \<and>
   \<not> isl (undo_move (projr (make_move ep_pawn_state ep_capture))) \<and>
   squares (board ep_pawn_state) ! 20 = CHR ''p'' \<and>
   squares (board (projr (undo_move (projr (make_move ep_pawn_state ep_capture))))) ! 20 = CHR ''.''"
  by code_simp

text \<open>
  C2, as amended: in a state of 64 cells and positive repetition counts whose
  en-passant target, if there is one, is an empty square, \<open>generate_legal_moves\<close> leaves
  the state as it was, and every move it returns, applied to that state, gives a position
  in which the mover's king is not attacked.
\<close>

theorem legal_moves_king_safe:
  assumes "state_ok s" "ep_target_empty s" "generate_legal_moves s = Inr (ms, s')"
  shows "s' = s \<and> (\<forall>m \<in> set ms. \<exists>s1. make_move s m = Inr s1 \<and>
      is_in_check s1 (side_to_move s) = Inr False)"
proof -
  from assms(1) have len: "length (squares (board s)) = 64" by (simp add: state_ok_def)
  then have "\<forall>m \<in> set (generate_pseudo_legal_moves s). generated s m"
    by (blast intro: pseudo_legal_generated)
  from legal_loop_restores [OF assms(1,2) this assms(3) [unfolded generate_legal_moves_def]]
  show ?thesis by simp
qed

theorem legal_moves_king_safe_witness:
  "state_ok ep_ok_state \<and> ep_target_empty ep_ok_state \<and>
   \<not> isl (generate_legal_moves ep_ok_state) \<and>
   ep_capture \<in> set (fst (projr (generate_legal_moves ep_ok_state))) \<and>
   snd (projr (generate_legal_moves ep_ok_state)) = ep_ok_state \<and>
   (\<exists>s1. make_move ep_ok_state ep_capture = Inr s1 \<and>
      is_in_check s1 (side_to_move ep_ok_state) = Inr False)"
proof -
  have 1: "\<not> isl (generate_legal_moves ep_ok_state) \<and>
      ep_capture \<in> set (fst (projr (generate_legal_moves ep_ok_state)))" by code_simp
  then obtain ms s' where 2: "generate_legal_moves ep_ok_state = Inr (ms, s')"
    by (cases "generate_legal_moves ep_ok_state") auto
  with 1 have 3: "ep_capture \<in> set ms" by simp
  from state_ok_ep_ok_state legal_moves_king_safe [OF _ _ 2] 1 2 3 show ?thesis by simp
qed

text \<open>
  C2 as stated fails at \<open>k7/8/4q3/3P4/8/8/8/4K3 w - e6 0 1\<close>, one king of each colour,
  the black queen on the en-passant target giving check: taking back the en-passant
  capture removes the queen from the shared board, the king moves are tested without it,
  and the returned list holds Ke1-e2, which leaves the king attacked.
\<close>

theorem legal_moves_king_safe_counterexample:
  "one_king_per_color (squares (board ep_queen_state)) \<and>
   \<not> isl (generate_legal_moves ep_queen_state) \<and>
   mk_move 60 52 \<in> set (fst (projr (generate_legal_moves ep_queen_state))) \<and>
   is_in_check (projr (make_move ep_queen_state (mk_move 60 52))) (side_to_move ep_queen_state) = Inr True"
  by code_simp

section \<open>The en-passant target after a move\<close>

lemma make_move_result:
  assumes "make_move s m = Inr s1"
  obtains mp cp eps rm b' where
    "make_board (squares (board s)) (side_to_move s) m = Inr (mp, cp, eps, rm, b')"
    "getitem (squares (board s)) (from_square m) = Inr mp"
    "squares (board s1) = b'"
    "side_to_move s1 = (if side_to_move s = ''w'' then ''b'' else ''w'')"
    "en_passant s1 = (if upper mp = CHR ''P'' \<and> \<bar>to_square m - from_square m\<bar> = 16
                then Some ((to_square m + from_square m) div 2) else None)"
    "repetition s1 = rep_inc (repetition s) (repetition_key s1)"
proof -
  from assms obtain mp cp eps rm b' where
    mb: "make_board (squares (board s)) (side_to_move s) m = Inr (mp, cp, eps, rm, b')"
    unfolding make_move_def Let_def by (auto split: sum.splits)
  then have gi: "getitem (squares (board s)) (from_square m) = Inr mp"
    unfolding make_board_def Let_def by (auto split: sum.splits if_splits prod.splits)
  from assms mb have
    "squares (board s1) = b'"
    "side_to_move s1 = (if side_to_move s = ''w'' then ''b'' else ''w'')"
    "en_passant s1 = (if upper mp = CHR ''P'' \<and> \<bar>to_square m - from_square m\<bar> = 16
                then Some ((to_square m + from_square m) div 2) else None)"
    "repetition s1 = rep_inc (repetition s) (repetition_key s1)"
    unfolding make_move_def Let_def update_repetition_def
    by (auto simp: repetition_key_def)
  with mb gi that show ?thesis by blast
qed


lemma double_push_iff:
  assumes g: "generated s m"
  shows "upper (squares (board s) ! nat (from_square m)) = CHR ''P'' \<and>
      \<bar>to_square m - from_square m\<bar> = 16 \<longleftrightarrow> double_push s m"
    and "double_push s m \<Longrightarrow>
      (to_square m + from_square m) div 2 = square_between (from_square m) (to_square m)"
proof -
  let ?f = "from_square m" and ?t = "to_square m"
  let ?dir = "if side_to_move s = ''w'' then - 1 else 1 :: int"
  let ?start = "if side_to_move s = ''w'' then 6 else 1 :: int"
  let ?P = "upper (squares (board s) ! nat ?f) = CHR ''P''"
  from generated_facts [OF g] obtain r c where rc: "?f = r * 8 + c" "0 \<le> r" "r < 8" "0 \<le> c" "c < 8"
    using square_coords by blast
  then have fdiv: "?f div 8 = r" "?f mod 8 = c" by simp_all
  from g have pawn: "?P \<longrightarrow>
      (?t - ?f = 8 * ?dir \<or> ?t - ?f = 8 * ?dir - 1 \<or> ?t - ?f = 8 * ?dir + 1 \<or>
       (?t - ?f = 16 * ?dir \<and> ?f div 8 = ?start))"
    unfolding generated_def Let_def by blast
  have dp: "double_push s m \<longleftrightarrow> ?P \<and> r = ?start \<and> ?t div 8 = r + 2 * ?dir \<and> ?t mod 8 = c"
    unfolding double_push_def Let_def fdiv by (rule refl)
  have t16: "?t div 8 = r + 2 * ?dir \<and> ?t mod 8 = c \<longleftrightarrow> ?t - ?f = 16 * ?dir"
  proof
    assume "?t div 8 = r + 2 * ?dir \<and> ?t mod 8 = c"
    then have "?t = (r + 2 * ?dir) * 8 + c" by (metis div_mult_mod_eq)
    with rc show "?t - ?f = 16 * ?dir" by (simp split: if_splits)
  next
    assume "?t - ?f = 16 * ?dir"
    with rc have t: "?t = (r + 2 * ?dir) * 8 + c" by (simp split: if_splits)
    from coords_div_mod [OF rc(4,5), of "r + 2 * ?dir"]
    show "?t div 8 = r + 2 * ?dir \<and> ?t mod 8 = c" unfolding t by blast
  qed
  show "?P \<and> \<bar>?t - ?f\<bar> = 16 \<longleftrightarrow> double_push s m"
  proof
    assume a: "?P \<and> \<bar>?t - ?f\<bar> = 16"
    with pawn have "?t - ?f = 16 * ?dir \<and> ?f div 8 = ?start" by (auto split: if_splits)
    with a t16 fdiv show "double_push s m" unfolding dp by simp
  next
    assume "double_push s m"
    with dp t16 have "?P" "?t - ?f = 16 * ?dir" by simp_all
    then show "?P \<and> \<bar>?t - ?f\<bar> = 16" by (simp split: if_splits)
  qed
  show "(?t + ?f) div 2 = square_between ?f ?t" if "double_push s m"
  proof -
    from that dp t16 have t: "?t = ?f + 16 * ?dir" "?t div 8 = r + 2 * ?dir" by simp_all
    have "(?t + ?f) div 2 = ?f + 8 * ?dir" unfolding t(1) by simp
    moreover have "square_between ?f ?t = (r + ?dir) * 8 + c"
      unfolding square_between_def fdiv t(2) by simp
    ultimately show ?thesis using rc by (simp split: if_splits)
  qed
qed

text \<open>
  C9, as amended: after \<open>make_move\<close> the en-passant target is \<open>(to + from) // 2\<close> exactly
  when the moved piece is a pawn and \<open>to\<close> and \<open>from\<close> differ by 16, and \<open>None\<close>
  otherwise, whatever the target was before. For every move that the generator emits on
  a board of 64 cells this is exactly a pawn advancing two ranks from its start rank, and
  the target is the square between \<open>from\<close> and \<open>to\<close>.
\<close>

theorem en_passant_target:
  "(make_move s m = Inr s1 \<longrightarrow>
      (\<exists>p. getitem (squares (board s)) (from_square m) = Inr p \<and>
         en_passant s1 = (if upper p = CHR ''P'' \<and> \<bar>to_square m - from_square m\<bar> = 16
                          then Some ((to_square m + from_square m) div 2) else None))) \<and>
   (length (squares (board s)) = 64 \<and> m \<in> set (generate_pseudo_legal_moves s) \<and>
    make_move s m = Inr s1 \<longrightarrow>
      en_passant s1 = (if double_push s m
                       then Some (square_between (from_square m) (to_square m)) else None))"
proof (intro conjI impI)
  assume "make_move s m = Inr s1"
  then show "\<exists>p. getitem (squares (board s)) (from_square m) = Inr p \<and>
         en_passant s1 = (if upper p = CHR ''P'' \<and> \<bar>to_square m - from_square m\<bar> = 16
                          then Some ((to_square m + from_square m) div 2) else None)"
    by (rule make_move_result) blast
next
  assume a: "length (squares (board s)) = 64 \<and> m \<in> set (generate_pseudo_legal_moves s) \<and>
    make_move s m = Inr s1"
  then have g: "generated s m" by (blast intro: pseudo_legal_generated)
  from a obtain mp where mp: "getitem (squares (board s)) (from_square m) = Inr mp"
    and ep: "en_passant s1 = (if upper mp = CHR ''P'' \<and> \<bar>to_square m - from_square m\<bar> = 16
                then Some ((to_square m + from_square m) div 2) else None)"
    by (blast elim: make_move_result)
  from a generated_facts [OF g] mp have "mp = squares (board s) ! nat (from_square m)" by simp
  with ep double_push_iff [OF g]
  show "en_passant s1 = (if double_push s m
                       then Some (square_between (from_square m) (to_square m)) else None)"
    by auto
qed

theorem en_passant_target_witness:
  "length (squares (board start_state)) = 64 \<and>
   mk_move 52 36 \<in> set (generate_pseudo_legal_moves start_state) \<and>
   \<not> isl (make_move start_state (mk_move 52 36)) \<and>
   double_push start_state (mk_move 52 36) \<and>
   getitem (squares (board start_state)) (from_square (mk_move 52 36)) = Inr CHR ''P'' \<and>
   en_passant (projr (make_move start_state (mk_move 52 36)))
     = Some (square_between (from_square (mk_move 52 36)) (to_square (mk_move 52 36)))"
proof -
  have 1: "length (squares (board start_state)) = 64 \<and>
      mk_move 52 36 \<in> set (generate_pseudo_legal_moves start_state) \<and>
      \<not> isl (make_move start_state (mk_move 52 36)) \<and>
      double_push start_state (mk_move 52 36) \<and>
      getitem (squares (board start_state)) (from_square (mk_move 52 36)) = Inr CHR ''P''"
    by code_simp
  then have 2: "make_move start_state (mk_move 52 36)
      = Inr (projr (make_move start_state (mk_move 52 36)))" by simp
  from en_passant_target [of start_state "mk_move 52 36"
      "projr (make_move start_state (mk_move 52 36))"] 1 2
  have "en_passant (projr (make_move start_state (mk_move 52 36)))
      = (if double_push start_state (mk_move 52 36)
         then Some (square_between (from_square (mk_move 52 36)) (to_square (mk_move 52 36)))
         else None)" by blast
  with 1 show ?thesis by presburger
qed

text \<open>
  C9 as stated fails for a move built by hand, as the tests of the repository build
  theirs: at \<open>4k3/8/8/8/8/4P3/8/4K3 w - - 0 1\<close> the move \<open>Move(e3, e5)\<close> of the pawn on e3,
  which is not on its start rank, leaves the en-passant target e4.
\<close>

theorem en_passant_target_counterexample:
  "\<not> isl (make_move pawn_e3_state (mk_move 44 28)) \<and>
   en_passant (projr (make_move pawn_e3_state (mk_move 44 28))) = Some 36 \<and>
   squares (board pawn_e3_state) ! 44 = CHR ''P'' \<and>
   side_to_move pawn_e3_state = ''w'' \<and>
   from_square (mk_move 44 28) div 8 = 5 \<and>
   \<not> double_push pawn_e3_state (mk_move 44 28)"
  by code_simp

section \<open>Castling\<close>

lemma king_piece:
  "upper p = CHR ''K'' \<and> piece_color p = Some ''w'' \<longleftrightarrow> p = CHR ''K''"
  "upper p = CHR ''K'' \<and> piece_color p = Some ''b'' \<longleftrightarrow> p = CHR ''k''"
  by (auto simp: upper_eq_K piece_color_def isupper_def)

lemma piece_moves_castle:
  assumes idx: "0 \<le> idx" "idx < 64"
  shows "m \<in> set (piece_moves s idx) \<and> is_castle m \<longleftrightarrow>
     upper (squares (board s) ! nat idx) = CHR ''K'' \<and>
     piece_color (squares (board s) ! nat idx) = Some (side_to_move s) \<and>
     m \<in> set (castling_moves s idx)"
proof
  let ?b = "squares (board s)"
  let ?p = "?b ! nat idx"
  let ?enemy = "(if side_to_move s = ''w'' then ''b'' else ''w'')"
  assume a: "m \<in> set (piece_moves s idx) \<and> is_castle m"
  then have pc: "piece_color ?p = Some (side_to_move s)"
    unfolding piece_moves_def Let_def by (auto split: if_splits)
  from a consider (pawn) "m \<in> set (pawn_pushes s idx)"
    | (cap) dc where "m \<in> set (pawn_captures s idx dc)" "dc = - 1 \<or> dc = 1"
    | (step) "m \<in> set (step_moves ?b ?enemy idx knight_steps)"
    | (slide) "m \<in> set (slider_moves ?b ?enemy idx (upper ?p))"
    | (king) "m \<in> set (step_moves ?b ?enemy idx king_dirs)"
    | (castle) "upper ?p = CHR ''K''" "m \<in> set (castling_moves s idx)"
    unfolding piece_moves_def Let_def pawn_moves_def
    by (auto split: if_splits)
  then show "upper ?p = CHR ''K'' \<and> piece_color ?p = Some (side_to_move s) \<and>
     m \<in> set (castling_moves s idx)"
  proof cases
    case pawn from pawn_pushes_shape [OF pawn idx] a show ?thesis by blast
  next
    case cap from pawn_captures_shape [OF cap(1) idx cap(2)] a show ?thesis by blast
  next
    case step from step_moves_shape [OF step idx] a show ?thesis by blast
  next
    case slide from slider_moves_shape [OF slide] a show ?thesis by blast
  next
    case king from step_moves_shape [OF king idx] a show ?thesis by blast
  next
    case castle with pc show ?thesis by blast
  qed
next
  assume a: "upper (squares (board s) ! nat idx) = CHR ''K'' \<and>
     piece_color (squares (board s) ! nat idx) = Some (side_to_move s) \<and>
     m \<in> set (castling_moves s idx)"
  then have "squares (board s) ! nat idx \<noteq> CHR ''.''" by auto
  with a have "m \<in> set (piece_moves s idx)"
    unfolding piece_moves_def Let_def by simp
  with a castling_moves_shape [of m s idx] show "m \<in> set (piece_moves s idx) \<and> is_castle m"
    by blast
qed

lemma castling_moves_mem:
  "m \<in> set (castling_moves s idx) \<longleftrightarrow>
     (side_to_move s = ''w'' \<and> idx = 60 \<and>
        (m \<in> set (castle_moves s ''b'' 60 CHR ''K'' [61, 62] [61, 62] 62) \<or>
         m \<in> set (castle_moves s ''b'' 60 CHR ''Q'' [57, 58, 59] [59, 58] 58))) \<or>
     (side_to_move s = ''b'' \<and> idx = 4 \<and>
        (m \<in> set (castle_moves s ''w'' 4 CHR ''k'' [5, 6] [5, 6] 6) \<or>
         m \<in> set (castle_moves s ''w'' 4 CHR ''q'' [1, 2, 3] [3, 2] 2)))"
  unfolding castling_moves_def Let_def row7_col4 row0_col4
  by (auto split: if_splits)


lemma castle_moves_can_castle:
  "m \<in> set (castle_moves s (if side = ''w'' then ''b'' else ''w'') k right between path dest) \<and>
     side_to_move s = side \<and> squares (board s) ! nat k = king
   \<longleftrightarrow> m = castle_move k dest \<and> can_castle s side k king right between (k # path)"
  unfolding castle_moves_mem can_castle_def castle_move_def by auto

lemma pseudo_castle_iff:
  assumes len: "length (squares (board s)) = 64"
  shows "m \<in> set (generate_pseudo_legal_moves s) \<and> is_castle m \<longleftrightarrow>
    (m = castle_move 60 62 \<and> can_castle s ''w'' 60 CHR ''K'' CHR ''K'' [61, 62] [60, 61, 62]) \<or>
    (m = castle_move 60 58 \<and> can_castle s ''w'' 60 CHR ''K'' CHR ''Q'' [57, 58, 59] [60, 59, 58]) \<or>
    (m = castle_move 4 6 \<and> can_castle s ''b'' 4 CHR ''k'' CHR ''k'' [5, 6] [4, 5, 6]) \<or>
    (m = castle_move 4 2 \<and> can_castle s ''b'' 4 CHR ''k'' CHR ''q'' [1, 2, 3] [4, 3, 2])"
    (is "?L \<longleftrightarrow> ?D1 \<or> ?D2 \<or> ?D3 \<or> ?D4")
proof -
  let ?b = "squares (board s)"
  have mem: "m \<in> set (generate_pseudo_legal_moves s) \<longleftrightarrow> (\<exists>i<64. m \<in> set (piece_moves s (int i)))"
    unfolding generate_pseudo_legal_moves_def using len by auto
  have pm: "m \<in> set (piece_moves s idx) \<and> is_castle m \<longleftrightarrow>
      upper (?b ! nat idx) = CHR ''K'' \<and> piece_color (?b ! nat idx) = Some (side_to_move s) \<and>
      m \<in> set (castling_moves s idx)" if "idx = 60 \<or> idx = 4" for idx
    using that by (intro piece_moves_castle) auto
  have k60: "(m \<in> set (piece_moves s 60) \<and> is_castle m) \<and> side_to_move s = ''w'' \<longleftrightarrow>
      (m \<in> set (castle_moves s ''b'' 60 CHR ''K'' [61, 62] [61, 62] 62) \<or>
       m \<in> set (castle_moves s ''b'' 60 CHR ''Q'' [57, 58, 59] [59, 58] 58)) \<and>
      side_to_move s = ''w'' \<and> ?b ! nat 60 = CHR ''K''"
  proof -
    have "side_to_move s = ''w'' \<Longrightarrow> side_to_move s \<noteq> ''b''" by simp
    with pm [of 60] castling_moves_mem [of m s 60] king_piece(1) [of "?b ! nat 60"]
    show ?thesis by (metis (no_types, lifting))
  qed
  have k4: "(m \<in> set (piece_moves s 4) \<and> is_castle m) \<and> side_to_move s = ''b'' \<longleftrightarrow>
      (m \<in> set (castle_moves s ''w'' 4 CHR ''k'' [5, 6] [5, 6] 6) \<or>
       m \<in> set (castle_moves s ''w'' 4 CHR ''q'' [1, 2, 3] [3, 2] 2)) \<and>
      side_to_move s = ''b'' \<and> ?b ! nat 4 = CHR ''k''"
  proof -
    have "side_to_move s = ''b'' \<Longrightarrow> side_to_move s \<noteq> ''w''" by simp
    with pm [of 4] castling_moves_mem [of m s 4] king_piece(2) [of "?b ! nat 4"]
    show ?thesis by (metis (no_types, lifting))
  qed
  have d1: "?D1 \<longleftrightarrow> m \<in> set (castle_moves s ''b'' 60 CHR ''K'' [61, 62] [61, 62] 62) \<and>
      side_to_move s = ''w'' \<and> ?b ! nat 60 = CHR ''K''"
    using castle_moves_can_castle [of m s "''w''" 60 "CHR ''K''" "[61, 62]" "[61, 62]" 62 "CHR ''K''"]
    by simp
  have d2: "?D2 \<longleftrightarrow> m \<in> set (castle_moves s ''b'' 60 CHR ''Q'' [57, 58, 59] [59, 58] 58) \<and>
      side_to_move s = ''w'' \<and> ?b ! nat 60 = CHR ''K''"
    using castle_moves_can_castle [of m s "''w''" 60 "CHR ''Q''" "[57, 58, 59]" "[59, 58]" 58 "CHR ''K''"]
    by simp
  have d3: "?D3 \<longleftrightarrow> m \<in> set (castle_moves s ''w'' 4 CHR ''k'' [5, 6] [5, 6] 6) \<and>
      side_to_move s = ''b'' \<and> ?b ! nat 4 = CHR ''k''"
    using castle_moves_can_castle [of m s "''b''" 4 "CHR ''k''" "[5, 6]" "[5, 6]" 6 "CHR ''k''"]
    by simp
  have d4: "?D4 \<longleftrightarrow> m \<in> set (castle_moves s ''w'' 4 CHR ''q'' [1, 2, 3] [3, 2] 2) \<and>
      side_to_move s = ''b'' \<and> ?b ! nat 4 = CHR ''k''"
    using castle_moves_can_castle [of m s "''b''" 4 "CHR ''q''" "[1, 2, 3]" "[3, 2]" 2 "CHR ''k''"]
    by simp
  have w: "?D1 \<or> ?D2 \<longleftrightarrow> (m \<in> set (piece_moves s 60) \<and> is_castle m) \<and> side_to_move s = ''w''"
    unfolding d1 d2 k60 by blast
  have b: "?D3 \<or> ?D4 \<longleftrightarrow> (m \<in> set (piece_moves s 4) \<and> is_castle m) \<and> side_to_move s = ''b''"
    unfolding d3 d4 k4 by blast
  show ?thesis
  proof
    assume L: ?L
    then obtain i where i: "i < 64" "m \<in> set (piece_moves s (int i))" unfolding mem by blast
    with L have "m \<in> set (castling_moves s (int i))"
      using piece_moves_castle [of "int i" m s] by auto
    then have "(side_to_move s = ''w'' \<and> int i = 60) \<or> (side_to_move s = ''b'' \<and> int i = 4)"
      unfolding castling_moves_mem by blast
    with i L have "((m \<in> set (piece_moves s 60) \<and> is_castle m) \<and> side_to_move s = ''w'') \<or>
        ((m \<in> set (piece_moves s 4) \<and> is_castle m) \<and> side_to_move s = ''b'')" by auto
    with w b show "?D1 \<or> ?D2 \<or> ?D3 \<or> ?D4" by blast
  next
    assume "?D1 \<or> ?D2 \<or> ?D3 \<or> ?D4"
    with w b have "(m \<in> set (piece_moves s (int 60)) \<or> m \<in> set (piece_moves s (int 4))) \<and> is_castle m"
      by auto
    moreover have "(60 :: nat) < 64" "(4 :: nat) < 64" by simp_all
    ultimately show ?L unfolding mem by blast
  qed
qed

text \<open>
  C5, as amended: on a board of 64 cells the castling moves that
  \<open>generate_pseudo_legal_moves\<close> emits are exactly these: for the side to move, with its
  king on its home square e1 or e8, the matching right held, the squares between the home
  squares of king and rook empty (the rook itself is not looked at), and the king's
  square and the two squares it crosses, not the rook's path, unattacked by the enemy.
  From \<open>r3k2r/8/8/8/8/8/8/R3K2R w KQkq - 0 1\<close> both white castling moves, to g1 and to
  c1, are in the legal moves.
\<close>

theorem castling_generated:
  "(length (squares (board s)) = 64 \<longrightarrow>
     (m \<in> set (generate_pseudo_legal_moves s) \<and> is_castle m \<longleftrightarrow>
      (m = castle_move 60 62 \<and> can_castle s ''w'' 60 CHR ''K'' CHR ''K'' [61, 62] [60, 61, 62]) \<or>
      (m = castle_move 60 58 \<and> can_castle s ''w'' 60 CHR ''K'' CHR ''Q'' [57, 58, 59] [60, 59, 58]) \<or>
      (m = castle_move 4 6 \<and> can_castle s ''b'' 4 CHR ''k'' CHR ''k'' [5, 6] [4, 5, 6]) \<or>
      (m = castle_move 4 2 \<and> can_castle s ''b'' 4 CHR ''k'' CHR ''q'' [1, 2, 3] [4, 3, 2]))) \<and>
   state_from_fen ''r3k2r/8/8/8/8/8/8/R3K2R'' ''w'' ''KQkq'' ''-'' 0 1 = Inr castle_state \<and>
   \<not> isl (generate_legal_moves castle_state) \<and>
   castle_move 60 62 \<in> set (fst (projr (generate_legal_moves castle_state))) \<and>
   castle_move 60 58 \<in> set (fst (projr (generate_legal_moves castle_state)))"
proof -
  have "state_from_fen ''r3k2r/8/8/8/8/8/8/R3K2R'' ''w'' ''KQkq'' ''-'' 0 1 = Inr castle_state"
    by (simp add: state_from_fen_def from_fen_def fen_cells_def isdigit_def int_of_digit_def
        castle_state_def numeral_eq_Suc)
  moreover have "\<not> isl (generate_legal_moves castle_state) \<and>
      castle_move 60 62 \<in> set (fst (projr (generate_legal_moves castle_state))) \<and>
      castle_move 60 58 \<in> set (fst (projr (generate_legal_moves castle_state)))"
    by code_simp
  ultimately show ?thesis using pseudo_castle_iff [of s m] by blast
qed

theorem castling_generated_witness:
  "length (squares (board castle_state)) = 64 \<and>
   can_castle castle_state ''w'' 60 CHR ''K'' CHR ''K'' [61, 62] [60, 61, 62] \<and>
   castle_move 60 62 \<in> set (generate_pseudo_legal_moves castle_state) \<and>
   is_castle (castle_move 60 62)"
proof -
  have 1: "length (squares (board castle_state)) = 64 \<and>
      can_castle castle_state ''w'' 60 CHR ''K'' CHR ''K'' [61, 62] [60, 61, 62]"
    by code_simp
  with castling_generated [of castle_state "castle_move 60 62"] show ?thesis by blast
qed

text \<open>
  C5 as stated fails at \<open>4k3/8/8/8/8/8/8/5K1R w K - 0 1\<close>: the right \<open>K\<close> is held, the
  one square between the king on f1 and the rook on h1 is empty, f1 and g1 are not
  attacked, and no castling move is generated, the king not being on e1.
\<close>

theorem castling_generated_counterexample:
  "CHR ''K'' \<in> set (castling_rights king_f1_state) \<and> side_to_move king_f1_state = ''w'' \<and>
   squares (board king_f1_state) ! 61 = CHR ''K'' \<and>
   squares (board king_f1_state) ! 62 = CHR ''.'' \<and>
   squares (board king_f1_state) ! 63 = CHR ''R'' \<and>
   \<not> is_square_attacked king_f1_state 61 ''b'' \<and>
   \<not> is_square_attacked king_f1_state 62 ''b'' \<and>
   filter is_castle (generate_pseudo_legal_moves king_f1_state) = []"
  by code_simp

section \<open>The result of the search\<close>























end
